theory Spec2Isabelle
  imports Main "HOL-Library.Word"
begin

section \<open>The memory of the C program\<close>

text \<open>
  The library is written in C and works on an \<open>SB_Buffer\<close> structure through a pointer.
  The claims depend on aliasing (the \<open>str\<close> field points either into the structure itself
  or at a heap block; \<open>sb_buffer_copy\<close> may get the same structure twice), so the model is a
  store: structures at addresses, heap blocks under block numbers.

  \<open>size_t\<close> is 64 bits wide (LP64); \<open>char\<close> is a byte; \<open>uint32_t\<close> is \<open>32 word\<close>.
\<close>

type_synonym byte = "8 word"
type_synonym size_t = "64 word"
type_synonym addr = nat

text \<open>
  A \<open>char *\<close> value. \<open>InitOf a\<close> is the address of the \<open>init\<close> array of the structure at
  \<open>a\<close>; \<open>Block k\<close> is the start of the heap block \<open>k\<close>; \<open>Extern bs\<close> is the start of an
  array of the caller that the library only reads (a string literal, say), holding the bytes
  \<open>bs\<close>.
\<close>

datatype ptr = NULL | InitOf addr | Block nat | Extern "byte list"

definition SB_BUFFER_INITIAL_CAP :: nat where
  "SB_BUFFER_INITIAL_CAP = 256"

definition SIZE_MAX :: size_t where
  "SIZE_MAX = 18446744073709551615"

definition SB_BUFFER_MAGIC :: "32 word" where
  "SB_BUFFER_MAGIC = 0xBABECAFE"

record SB_Buffer =
  magic :: "32 word"
  init :: "byte list"
  str :: ptr
  len :: size_t
  cap :: size_t

text \<open>
  The store. \<open>allocs\<close> lists the outcomes of the coming allocation requests (\<open>False\<close>: the
  request fails; when the list is exhausted requests succeed); \<open>junk\<close> is the byte that fresh
  storage happens to hold; \<open>stderr\<close> collects the source lines of the diagnostics that
  \<open>CHECK_SB_BUFFER_POINTER_RET\<close> prints.
\<close>

record memory =
  bufs :: "addr \<rightharpoonup> SB_Buffer"
  heap :: "nat \<rightharpoonup> byte list"
  next_block :: nat
  allocs :: "bool list"
  junk :: byte
  stderr :: "nat list"

text \<open>
  What a call does: it returns, it runs into undefined behaviour (an invalid memory access,
  \<open>Fault\<close>), or it never returns.
\<close>

datatype 'a outcome = Returns 'a | Fault | Diverges

definition lift :: "'a option \<Rightarrow> ('a \<Rightarrow> 'b outcome) \<Rightarrow> 'b outcome" where
  "lift x k = (case x of None \<Rightarrow> Fault | Some v \<Rightarrow> k v)"

subsection \<open>Reading and writing through a pointer\<close>

definition active :: "ptr \<Rightarrow> memory \<Rightarrow> byte list option" where
  "active p m = (case p of
      NULL \<Rightarrow> None
    | InitOf a \<Rightarrow> (case bufs m a of None \<Rightarrow> None | Some b \<Rightarrow> Some (init b))
    | Block k \<Rightarrow> heap m k
    | Extern bs \<Rightarrow> Some bs)"

definition put :: "ptr \<Rightarrow> byte list \<Rightarrow> memory \<Rightarrow> memory option" where
  "put p bs m = (case p of
      InitOf a \<Rightarrow> (case bufs m a of None \<Rightarrow> None
                   | Some b \<Rightarrow> Some (m\<lparr>bufs := (bufs m)(a \<mapsto> b\<lparr>init := bs\<rparr>)\<rparr>))
    | Block k \<Rightarrow> Some (m\<lparr>heap := (heap m)(k \<mapsto> bs)\<rparr>)
    | _ \<Rightarrow> None)"

definition load :: "ptr \<Rightarrow> nat \<Rightarrow> memory \<Rightarrow> byte list option" where
  "load p n m = (if n = 0 then Some [] else
     (case active p m of None \<Rightarrow> None
      | Some bs \<Rightarrow> if n \<le> length bs then Some (take n bs) else None))"

definition store :: "ptr \<Rightarrow> nat \<Rightarrow> byte list \<Rightarrow> memory \<Rightarrow> memory option" where
  "store p off vs m = (if vs = [] then Some m else
     (case active p m of None \<Rightarrow> None
      | Some bs \<Rightarrow> if off + length vs \<le> length bs
                   then put p (take off bs @ vs @ drop (off + length vs) bs) m
                   else None))"

text \<open>
  \<open>memcpy (dst + off, src, n)\<close>. Copying between overlapping ranges is undefined, so is an
  access outside an object; copying no byte does nothing.
\<close>

definition memcpy :: "ptr \<Rightarrow> nat \<Rightarrow> ptr \<Rightarrow> nat \<Rightarrow> memory \<Rightarrow> memory option" where
  "memcpy dst off src n m =
     (if 0 < n \<and> src = dst \<and> off < n then None
      else (case load src n m of None \<Rightarrow> None | Some vs \<Rightarrow> store dst off vs m))"

subsection \<open>The allocator\<close>

definition malloc :: "nat \<Rightarrow> memory \<Rightarrow> ptr \<times> memory" where
  "malloc n m = (case allocs m of
      False # os \<Rightarrow> (NULL, m\<lparr>allocs := os\<rparr>)
    | _ \<Rightarrow> (Block (next_block m),
            m\<lparr>heap := (heap m)(next_block m \<mapsto> replicate n (junk m)),
              next_block := Suc (next_block m),
              allocs := tl (allocs m)\<rparr>))"

text \<open>
  \<open>realloc\<close> ends the old object and returns a new one that starts with the old bytes; when
  it fails the old object stays as it is.
\<close>

definition realloc :: "ptr \<Rightarrow> nat \<Rightarrow> memory \<Rightarrow> (ptr \<times> memory) option" where
  "realloc p n m = (case p of
      NULL \<Rightarrow> Some (malloc n m)
    | Block k \<Rightarrow> (case heap m k of None \<Rightarrow> None
        | Some bs \<Rightarrow> (case allocs m of
            False # os \<Rightarrow> Some (NULL, m\<lparr>allocs := os\<rparr>)
          | _ \<Rightarrow> Some (Block (next_block m),
                  m\<lparr>heap := ((heap m)(k := None))
                             (next_block m \<mapsto> take n bs @ replicate (n - length bs) (junk m)),
                    next_block := Suc (next_block m),
                    allocs := tl (allocs m)\<rparr>)))
    | _ \<Rightarrow> None)"

definition free :: "ptr \<Rightarrow> memory \<Rightarrow> memory option" where
  "free p m = (case p of
      NULL \<Rightarrow> Some m
    | Block k \<Rightarrow> (case heap m k of None \<Rightarrow> None
                  | Some bs \<Rightarrow> Some (m\<lparr>heap := (heap m)(k := None)\<rparr>))
    | _ \<Rightarrow> None)"

section \<open>The functions of \<open>sb_buffer.c\<close>\<close>

text \<open>
  A \<open>SB_Buffer *\<close> is \<open>None\<close> (the null pointer) or the address of a structure. The macro
  \<open>CHECK_SB_BUFFER_POINTER_RET\<close> reads the \<open>magic\<close> field through it: \<open>deref_buffer\<close>
  is its test, \<open>diag\<close> its \<open>fprintf\<close> with the line of the macro call.
\<close>

datatype handle = Invalid | Valid addr SB_Buffer | Wild

definition deref_buffer :: "addr option \<Rightarrow> memory \<Rightarrow> handle" where
  "deref_buffer p m = (case p of
      None \<Rightarrow> Invalid
    | Some a \<Rightarrow> (case bufs m a of None \<Rightarrow> Wild
                 | Some b \<Rightarrow> if magic b \<noteq> SB_BUFFER_MAGIC then Invalid else Valid a b))"

definition diag :: "nat \<Rightarrow> memory \<Rightarrow> memory" where
  "diag line m = m\<lparr>stderr := stderr m @ [line]\<rparr>"

definition set_fields :: "addr \<Rightarrow> (SB_Buffer \<Rightarrow> SB_Buffer) \<Rightarrow> memory \<Rightarrow> memory" where
  "set_fields a f m = (case bufs m a of None \<Rightarrow> m
                       | Some b \<Rightarrow> m\<lparr>bufs := (bufs m)(a \<mapsto> f b)\<rparr>)"

definition sb_buffer_init :: "addr option \<Rightarrow> memory \<Rightarrow> (int \<times> memory) outcome" where
  "sb_buffer_init p m = (case p of
      None \<Rightarrow> Returns (0, m)
    | Some a \<Rightarrow> (case bufs m a of None \<Rightarrow> Fault
        | Some b \<Rightarrow>
            (let m1 = set_fields a (\<lambda>b. b\<lparr>magic := SB_BUFFER_MAGIC\<rparr>) m;
                 m2 = set_fields a (\<lambda>b. b\<lparr>len := 0\<rparr>) m1;
                 m3 = set_fields a (\<lambda>b. b\<lparr>cap := of_nat SB_BUFFER_INITIAL_CAP\<rparr>) m2;
                 m4 = set_fields a (\<lambda>b. b\<lparr>str := InitOf a\<rparr>) m3
             in lift (store (InitOf a) 0 [0] m4) (\<lambda>m5. Returns (1, m5)))))"

text \<open>The loop of lines 50 to 52; it need not end, so its result is optional.\<close>

partial_function (option) grow :: "size_t \<Rightarrow> size_t \<Rightarrow> size_t option" where
  [code]: "grow nova_cap need = (if nova_cap \<le> need then grow (nova_cap * 2) need else Some nova_cap)"

text \<open>Lines 74 to 80: copy the new bytes behind the content, add to \<open>len\<close>, terminate.\<close>

definition append_bytes :: "addr \<Rightarrow> ptr \<Rightarrow> size_t \<Rightarrow> memory \<Rightarrow> (int \<times> memory) outcome" where
  "append_bytes a s l m = (case bufs m a of None \<Rightarrow> Fault
     | Some b \<Rightarrow>
         lift (memcpy (str b) (unat (len b)) s (unat l) m) (\<lambda>m1.
           (let m2 = set_fields a (\<lambda>b. b\<lparr>len := len b + l\<rparr>) m1
            in (case bufs m2 a of None \<Rightarrow> Fault
                | Some b2 \<Rightarrow> lift (store (str b2) (unat (len b2)) [0] m2)
                                 (\<lambda>m3. Returns (1, m3))))))"

definition sb_buffer_add_lstring ::
  "addr option \<Rightarrow> ptr \<Rightarrow> size_t \<Rightarrow> memory \<Rightarrow> (int \<times> memory) outcome" where
  "sb_buffer_add_lstring p s l m = (case deref_buffer p m of
      Wild \<Rightarrow> Fault
    | Invalid \<Rightarrow> Returns (0, diag 39 m)
    | Valid a b \<Rightarrow>
        (let sobrando = cap b - len b in
         if l \<ge> sobrando then
           (case grow (cap b) (len b + l + 1) of
              None \<Rightarrow> Diverges
            | Some nova_cap \<Rightarrow>
                if str b \<noteq> InitOf a then
                  lift (realloc (str b) (unat nova_cap) m) (\<lambda>(novo_ptr, m1).
                    if novo_ptr = NULL then Returns (0, m1)
                    else append_bytes a s l
                           (set_fields a (\<lambda>b. b\<lparr>str := novo_ptr, cap := nova_cap\<rparr>) m1))
                else
                  (case malloc (unat nova_cap) m of (novo_ptr, m1) \<Rightarrow>
                    if novo_ptr = NULL then Returns (0, m1)
                    else lift (memcpy novo_ptr 0 (InitOf a) (unat (len b)) m1) (\<lambda>m2.
                           append_bytes a s l
                             (set_fields a (\<lambda>b. b\<lparr>str := novo_ptr, cap := nova_cap\<rparr>) m2))))
         else append_bytes a s l m))"


definition sb_buffer_get_str :: "addr option \<Rightarrow> memory \<Rightarrow> (ptr \<times> memory) outcome" where
  "sb_buffer_get_str p m = (case deref_buffer p m of
      Wild \<Rightarrow> Fault
    | Invalid \<Rightarrow> Returns (NULL, diag 90 m)
    | Valid a b \<Rightarrow> Returns (str b, m))"

definition sb_buffer_get_len :: "addr option \<Rightarrow> memory \<Rightarrow> (size_t \<times> memory) outcome" where
  "sb_buffer_get_len p m = (case deref_buffer p m of
      Wild \<Rightarrow> Fault
    | Invalid \<Rightarrow> Returns (0, diag 97 m)
    | Valid a b \<Rightarrow> Returns (len b, m))"

definition sb_buffer_finalize :: "addr option \<Rightarrow> memory \<Rightarrow> (int \<times> memory) outcome" where
  "sb_buffer_finalize p m = (case deref_buffer p m of
      Wild \<Rightarrow> Fault
    | Invalid \<Rightarrow> Returns (0, diag 106 m)
    | Valid a b \<Rightarrow>
        lift (if str b \<noteq> InitOf a then free (str b) m else Some m) (\<lambda>m1.
          (let m2 = set_fields a (\<lambda>b. b\<lparr>str := InitOf a\<rparr>) m1
           in (case bufs m2 a of None \<Rightarrow> Fault
               | Some b2 \<Rightarrow> lift (store (str b2) 0 [0] m2) (\<lambda>m3.
                   (let m4 = set_fields a (\<lambda>b. b\<lparr>len := 0\<rparr>) m3;
                        m5 = set_fields a (\<lambda>b. b\<lparr>cap := of_nat SB_BUFFER_INITIAL_CAP\<rparr>) m4
                    in Returns (1, m5)))))))"

definition sb_buffer_reset :: "addr option \<Rightarrow> memory \<Rightarrow> (int \<times> memory) outcome" where
  "sb_buffer_reset p m = (case deref_buffer p m of
      Wild \<Rightarrow> Fault
    | Invalid \<Rightarrow> Returns (0, diag 126 m)
    | Valid a b \<Rightarrow>
        lift (if str b \<noteq> InitOf a then free (str b) m else Some m) (\<lambda>m1.
          (let m2 = set_fields a (\<lambda>b. b\<lparr>len := 0\<rparr>) m1;
               m3 = set_fields a (\<lambda>b. b\<lparr>cap := of_nat SB_BUFFER_INITIAL_CAP\<rparr>) m2;
               m4 = set_fields a (\<lambda>b. b\<lparr>str := InitOf a\<rparr>) m3
           in (case bufs m4 a of None \<Rightarrow> Fault
               | Some b4 \<Rightarrow> lift (store (str b4) 0 [0] m4) (\<lambda>m5. Returns (1, m5))))))"

definition sb_buffer_clear :: "addr option \<Rightarrow> memory \<Rightarrow> (int \<times> memory) outcome" where
  "sb_buffer_clear p m = (case deref_buffer p m of
      Wild \<Rightarrow> Fault
    | Invalid \<Rightarrow> Returns (0, diag 147 m)
    | Valid a b \<Rightarrow>
        (let m1 = set_fields a (\<lambda>b. b\<lparr>len := 0\<rparr>) m
         in (case bufs m1 a of None \<Rightarrow> Fault
             | Some b1 \<Rightarrow> lift (store (str b1) 0 [0] m1) (\<lambda>m2. Returns (1, m2)))))"

definition sb_buffer_isbuffer :: "addr option \<Rightarrow> memory \<Rightarrow> int outcome" where
  "sb_buffer_isbuffer p m = (case deref_buffer p m of
      Wild \<Rightarrow> Fault
    | Invalid \<Rightarrow> Returns 0
    | Valid a b \<Rightarrow> Returns 1)"

definition sb_buffer_copy ::
  "addr option \<Rightarrow> addr option \<Rightarrow> memory \<Rightarrow> (int \<times> memory) outcome" where
  "sb_buffer_copy src dest m = (case deref_buffer src m of
      Wild \<Rightarrow> Fault
    | Invalid \<Rightarrow> Returns (0, diag 171 m)
    | Valid sa sb \<Rightarrow>
        (case sb_buffer_isbuffer dest m of
           Fault \<Rightarrow> Fault
         | Diverges \<Rightarrow> Diverges
         | Returns r \<Rightarrow>
             if r = 0 then Returns (0, m)
             else (case sb_buffer_reset dest m of
                     Fault \<Rightarrow> Fault
                   | Diverges \<Rightarrow> Diverges
                   | Returns (r1, m1) \<Rightarrow>
                       (case bufs m1 sa of None \<Rightarrow> Fault
                        | Some sb1 \<Rightarrow> sb_buffer_add_lstring dest (str sb1) (len sb1) m1))))"

section \<open>Observations and the validity of a buffer\<close>

text \<open>
  What the caller sees through the accessors: \<open>content\<close> is the \<open>sb_buffer_get_len\<close> bytes
  at the pointer \<open>sb_buffer_get_str\<close> returns, \<open>length_of\<close> is \<open>sb_buffer_get_len\<close>.
\<close>

definition content :: "addr \<Rightarrow> memory \<Rightarrow> byte list option" where
  "content a m = (case sb_buffer_get_str (Some a) m of
      Returns (q, m1) \<Rightarrow>
        (case sb_buffer_get_len (Some a) m1 of
           Returns (n, m2) \<Rightarrow> load q (unat n) m2
         | _ \<Rightarrow> None)
    | _ \<Rightarrow> None)"

definition length_of :: "addr \<Rightarrow> memory \<Rightarrow> nat option" where
  "length_of a m = (case sb_buffer_get_len (Some a) m of
      Returns (n, m1) \<Rightarrow> Some (unat n)
    | _ \<Rightarrow> None)"

text \<open>
  A well-formed buffer: the structure is there and carries the magic number; \<open>str\<close> points
  at its own \<open>init\<close> array (then \<open>cap\<close> is the size of that array) or at a block the
  allocator has handed out; the storage \<open>str\<close> points at has \<open>cap\<close> bytes.
\<close>

definition well_formed :: "addr \<Rightarrow> memory \<Rightarrow> bool" where
  "well_formed a m = (case bufs m a of
      None \<Rightarrow> False
    | Some b \<Rightarrow>
        magic b = SB_BUFFER_MAGIC \<and> length (init b) = SB_BUFFER_INITIAL_CAP \<and>
        (case str b of
           InitOf a' \<Rightarrow> a' = a \<and> unat (cap b) = SB_BUFFER_INITIAL_CAP
         | Block k \<Rightarrow> k < next_block m
         | _ \<Rightarrow> False) \<and>
        (case active (str b) m of
           None \<Rightarrow> False
         | Some st \<Rightarrow> length st = unat (cap b)))"

text \<open>
  The two invariants of the data model: \<open>len < cap\<close>, and the byte at offset \<open>len\<close> of
  the storage \<open>str\<close> points at is zero.
\<close>

definition terminated :: "addr \<Rightarrow> memory \<Rightarrow> bool" where
  "terminated a m = (case bufs m a of
      None \<Rightarrow> False
    | Some b \<Rightarrow> len b < cap b \<and>
        (case active (str b) m of
           None \<Rightarrow> False
         | Some st \<Rightarrow> unat (len b) < length st \<and> st ! unat (len b) = 0))"

text \<open>A valid buffer is well-formed and satisfies the two invariants.\<close>

definition inv_buf :: "addr \<Rightarrow> memory \<Rightarrow> bool" where
  "inv_buf a m = (well_formed a m \<and> terminated a m)"

text \<open>
  The store in which a growing append copies the new bytes: the structure at \<open>a\<close> points
  at a new block with the bytes \<open>X\<close>, the block it pointed at before is gone.
\<close>

definition prep :: "addr \<Rightarrow> SB_Buffer \<Rightarrow> byte list \<Rightarrow> size_t \<Rightarrow> memory \<Rightarrow> memory" where
  "prep a b X nc m =
     m\<lparr>bufs := (bufs m)(a \<mapsto> b\<lparr>str := Block (next_block m), cap := nc\<rparr>),
       heap := ((case str b of Block k \<Rightarrow> (heap m)(k := None) | _ \<Rightarrow> heap m))
                 (next_block m \<mapsto> X),
       next_block := Suc (next_block m),
       allocs := tl (allocs m)\<rparr>"

definition inline_backed :: "addr \<Rightarrow> memory \<Rightarrow> bool" where
  "inline_backed a m = (case bufs m a of None \<Rightarrow> False | Some b \<Rightarrow> str b = InitOf a)"

definition heap_backed :: "addr \<Rightarrow> memory \<Rightarrow> bool" where
  "heap_backed a m = (case bufs m a of
      None \<Rightarrow> False
    | Some b \<Rightarrow> (case str b of Block k \<Rightarrow> heap m k \<noteq> None | _ \<Rightarrow> False))"

text \<open>Two buffers that share no storage.\<close>

definition separate :: "addr \<Rightarrow> addr \<Rightarrow> memory \<Rightarrow> bool" where
  "separate a a' m = (case (bufs m a, bufs m a') of
      (Some b, Some b') \<Rightarrow> a \<noteq> a' \<and> str b \<noteq> str b'
    | _ \<Rightarrow> False)"

text \<open>
  A run of appends from arrays of the caller, each with its full length, all of which
  return 1.
\<close>

fun appends :: "addr \<Rightarrow> byte list list \<Rightarrow> memory \<Rightarrow> memory option" where
  "appends a [] m = Some m"
| "appends a (s # ss) m =
     (case sb_buffer_add_lstring (Some a) (Extern s) (of_nat (length s)) m of
        Returns (r, m') \<Rightarrow> if r = 1 then appends a ss m' else None
      | _ \<Rightarrow> None)"

text \<open>The outcome of a call without the diagnostics it printed.\<close>

definition quiet :: "(int \<times> memory) outcome \<Rightarrow> (int \<times> memory) outcome" where
  "quiet x = (case x of Returns (r, m) \<Rightarrow> Returns (r, m\<lparr>stderr := []\<rparr>) | _ \<Rightarrow> x)"

subsection \<open>Concrete stores\<close>

text \<open>
  \<open>mem0\<close> holds one structure, at address 0, that has not been initialised;
  \<open>mem1\<close> is \<open>mem0\<close> after \<open>sb_buffer_init\<close>.
\<close>

definition raw :: SB_Buffer where
  "raw = \<lparr>magic = 0, init = replicate 256 170, str = NULL, len = 7, cap = 3\<rparr>"

definition mem0 :: memory where
  "mem0 = \<lparr>bufs = [0 \<mapsto> raw], heap = Map.empty, next_block = 0, allocs = [],
           junk = 170, stderr = []\<rparr>"

definition buf1 :: SB_Buffer where
  "buf1 = \<lparr>magic = SB_BUFFER_MAGIC, init = 0 # replicate 255 170, str = InitOf 0,
           len = 0, cap = 256\<rparr>"

definition mem1 :: memory where
  "mem1 = \<lparr>bufs = [0 \<mapsto> buf1], heap = Map.empty, next_block = 0, allocs = [],
           junk = 170, stderr = []\<rparr>"

subsection \<open>Further stores and states\<close>

text \<open>
  \<open>reset_state\<close> is the store a hard reset of a valid buffer leaves; \<open>mem300\<close> is
  \<open>mem1\<close> after an append of 300 bytes; in \<open>mem_oom\<close> the next allocation fails.
\<close>

definition reset_state :: "addr \<Rightarrow> SB_Buffer \<Rightarrow> memory \<Rightarrow> memory" where
  "reset_state a b m =
     m\<lparr>bufs := (bufs m)(a \<mapsto> b\<lparr>len := 0, cap := of_nat SB_BUFFER_INITIAL_CAP, str := InitOf a,
                                 init := (init b)[0 := 0]\<rparr>),
       heap := (case str b of Block k \<Rightarrow> (heap m)(k := None) | _ \<Rightarrow> heap m)\<rparr>"

definition buf300 :: SB_Buffer where
  "buf300 = \<lparr>magic = SB_BUFFER_MAGIC, init = 0 # replicate 255 170, str = Block 0,
           len = 300, cap = 512\<rparr>"

definition mem300 :: memory where
  "mem300 = \<lparr>bufs = [0 \<mapsto> buf300],
             heap = [0 \<mapsto> replicate 300 65 @ 0 # replicate 211 170],
             next_block = 1, allocs = [], junk = 170, stderr = []\<rparr>"

definition mem_oom :: memory where
  "mem_oom = mem1\<lparr>allocs := [False]\<rparr>"

definition hello :: "byte list" where
  "hello = [72, 101, 108, 108, 111]"

definition hi :: "byte list" where
  "hi = [104, 105]"

text \<open>
  \<open>memAB\<close> holds the heap-backed buffer of \<open>mem300\<close> at address 0 and an inline
  buffer with eight bytes at address 1; \<open>memAB2\<close> is \<open>memAB\<close> after the copy from 0 to 1.
  \<open>mem255\<close> is \<open>mem1\<close> after an append of 255 bytes.
\<close>

definition bufB :: SB_Buffer where
  "bufB = \<lparr>magic = SB_BUFFER_MAGIC,
           init = [101, 120, 105, 115, 116, 105, 110, 103] @ 0 # replicate 247 170,
           str = InitOf 1, len = 8, cap = 256\<rparr>"

definition memAB :: memory where
  "memAB = \<lparr>bufs = [0 \<mapsto> buf300, 1 \<mapsto> bufB],
            heap = [0 \<mapsto> replicate 300 65 @ 0 # replicate 211 170],
            next_block = 1, allocs = [], junk = 170, stderr = []\<rparr>"

definition bufB2 :: SB_Buffer where
  "bufB2 = \<lparr>magic = SB_BUFFER_MAGIC,
           init = [0, 120, 105, 115, 116, 105, 110, 103] @ 0 # replicate 247 170,
           str = Block 1, len = 300, cap = 512\<rparr>"

definition memAB2 :: memory where
  "memAB2 = \<lparr>bufs = [0 \<mapsto> buf300, 1 \<mapsto> bufB2],
            heap = [0 \<mapsto> replicate 300 65 @ 0 # replicate 211 170,
                    1 \<mapsto> replicate 300 65 @ 0 # replicate 211 170],
            next_block = 2, allocs = [], junk = 170, stderr = []\<rparr>"

definition buf255 :: SB_Buffer where
  "buf255 = \<lparr>magic = SB_BUFFER_MAGIC, init = replicate 255 65 @ [0], str = InitOf 0,
             len = 255, cap = 256\<rparr>"

definition mem255 :: memory where
  "mem255 = \<lparr>bufs = [0 \<mapsto> buf255], heap = Map.empty, next_block = 0, allocs = [],
             junk = 170, stderr = []\<rparr>"

section \<open>Auxiliary facts\<close>

subsection \<open>Lists, words and the store\<close>

lemma unat_add_nowrap: "unat (x::size_t) + unat y < 2^64 \<Longrightarrow> unat (x + y) = unat x + unat y"
  by (simp add: unat_word_ariths)

lemma upd_take_drop: "i < length xs \<Longrightarrow> take i xs @ v # drop (Suc i) xs = xs[i := v]"
  by (simp add: upd_conv_take_nth_drop)

lemma splice_term:
  "length vs = n \<Longrightarrow> L + n < length st \<Longrightarrow>
   (take L st @ vs @ drop (L + n) st)[L + n := v] = take L st @ vs @ v # drop (Suc (L + n)) st"
  by (simp add: list_update_append upd_conv_take_nth_drop min_def)

lemma active_set_fields_init:
  "(\<And>b. init (f b) = init b) \<Longrightarrow> active p (set_fields a f m) = active p m"
  by (auto simp: active_def set_fields_def split: ptr.splits option.splits)

lemma bufs_set_fields: "bufs m a = Some b \<Longrightarrow> bufs (set_fields a f m) = (bufs m)(a \<mapsto> f b)"
  by (simp add: set_fields_def)

lemma store_Cons:
  "active p m = Some st \<Longrightarrow> store p off (v # vs) m =
     (if off + Suc (length vs) \<le> length st then put p (take off st @ (v # vs) @ drop (off + Suc (length vs)) st) m else None)"
  by (simp add: store_def)

lemma store_Nil: "store p off [] m = Some m"
  by (simp add: store_def)

lemma active_put:
  "put p bs m = Some m' \<Longrightarrow> active p m' = Some bs"
  by (auto simp: put_def active_def split: ptr.splits option.splits)

lemma append_bytes_eq:
  assumes b: "bufs m a = Some b" and st: "active (str b) m = Some st"
    and lt: "length st < 2^64" and p: "str b = InitOf a \<or> str b = Block k"
  shows "append_bytes a s l m =
     (if 0 < unat l \<and> s = str b \<and> unat (len b) < unat l then Fault
      else (case load s (unat l) m of None \<Rightarrow> Fault
        | Some vs \<Rightarrow>
            if unat (len b) + unat l < length st
            then lift (put (str b)
                        ((take (unat (len b)) st @ vs @ drop (unat (len b) + unat l) st)
                           [unat (len b) + unat l := 0])
                        (set_fields a (\<lambda>b. b\<lparr>len := len b + l\<rparr>) m))
                   (\<lambda>m'. Returns (1, m'))
            else Fault))"
proof (cases "0 < unat l \<and> s = str b \<and> unat (len b) < unat l")
  case True
  then show ?thesis using b by (simp add: append_bytes_def memcpy_def lift_def)
next
  case False
  note nov = this
  show ?thesis
  proof (cases "load s (unat l) m")
    case None
    then show ?thesis using b nov by (simp add: append_bytes_def memcpy_def lift_def)
  next
    case (Some vs)
    have lvs: "length vs = unat l" using Some by (auto simp: load_def split: if_splits option.splits)
    have nw: "unat (len b) + unat l \<le> length st \<Longrightarrow> unat (len b + l) = unat (len b) + unat l"
      using lt by (simp add: unat_add_nowrap)
    have mc: "memcpy (str b) (unat (len b)) s (unat l) m = store (str b) (unat (len b)) vs m"
      using nov Some by (auto simp: memcpy_def)
    show ?thesis
    proof (cases "vs = []")
      case True
      then have l0: "l = 0" using lvs by (simp add: unat_eq_0)
      from p show ?thesis
      proof
        assume "str b = InitOf a"
        then show ?thesis using b st Some True l0 mc
          by (auto simp: append_bytes_def lift_def store_def set_fields_def active_def put_def
              upd_take_drop)
      next
        assume "str b = Block k"
        then show ?thesis using b st Some True l0 mc
          by (auto simp: append_bytes_def lift_def store_def set_fields_def active_def put_def
              upd_take_drop)
      qed
    next
      case False
      from p show ?thesis
      proof
        assume "str b = InitOf a"
        then show ?thesis using b st Some False nov mc lvs nw
          by (auto simp: append_bytes_def lift_def store_def set_fields_def active_def put_def
              upd_take_drop splice_term)
      next
        assume "str b = Block k"
        then show ?thesis using b st Some False nov mc lvs nw
          apply (auto simp: append_bytes_def lift_def store_def set_fields_def active_def put_def
              upd_take_drop splice_term)
          done
      qed
    qed
  qed
qed


lemma add_fits:
  assumes "bufs m a = Some b" "magic b = SB_BUFFER_MAGIC" "\<not> cap b - len b \<le> l"
  shows "sb_buffer_add_lstring (Some a) s l m = append_bytes a s l m"
  using assms by (simp add: sb_buffer_add_lstring_def deref_buffer_def Let_def)

lemma add_diverges:
  assumes "bufs m a = Some b" "magic b = SB_BUFFER_MAGIC" "cap b - len b \<le> l"
    "grow (cap b) (len b + l + 1) = None"
  shows "sb_buffer_add_lstring (Some a) s l m = Diverges"
  using assms by (simp add: sb_buffer_add_lstring_def deref_buffer_def Let_def)

lemma add_alloc_fails:
  assumes "bufs m a = Some b" "magic b = SB_BUFFER_MAGIC" "cap b - len b \<le> l"
    "grow (cap b) (len b + l + 1) = Some nc" "allocs m = False # os"
    "str b = InitOf a \<or> (str b = Block k \<and> heap m k = Some st)"
  shows "sb_buffer_add_lstring (Some a) s l m = Returns (0, m\<lparr>allocs := os\<rparr>)"
  using assms
  by (auto simp: sb_buffer_add_lstring_def deref_buffer_def Let_def malloc_def realloc_def lift_def)

lemma add_grow_inline:
  assumes "bufs m a = Some b" "magic b = SB_BUFFER_MAGIC" "cap b - len b \<le> l"
    "grow (cap b) (len b + l + 1) = Some nc" "\<forall>os. allocs m \<noteq> False # os"
    "str b = InitOf a" "unat (len b) \<le> length (init b)"
  shows "sb_buffer_add_lstring (Some a) s l m =
     (if unat nc < unat (len b) then Fault
      else append_bytes a s l
        (prep a b (take (unat (len b)) (init b) @ replicate (unat nc - unat (len b)) (junk m)) nc m))"
  using assms
  apply (auto simp: sb_buffer_add_lstring_def deref_buffer_def Let_def malloc_def lift_def prep_def
     memcpy_def load_def store_def active_def put_def set_fields_def
     split: list.splits bool.splits
     intro!: arg_cong[where f = "append_bytes a s l"] memory.equality)
  done

lemma add_grow_heap:
  assumes "bufs m a = Some b" "magic b = SB_BUFFER_MAGIC" "cap b - len b \<le> l"
    "grow (cap b) (len b + l + 1) = Some nc" "\<forall>os. allocs m \<noteq> False # os"
    "str b = Block k" "heap m k = Some st"
  shows "sb_buffer_add_lstring (Some a) s l m =
     append_bytes a s l
        (prep a b (take (unat nc) st @ replicate (unat nc - length st) (junk m)) nc m)"
  using assms
  apply (auto simp: sb_buffer_add_lstring_def deref_buffer_def Let_def realloc_def lift_def prep_def
     set_fields_def
     split: list.splits bool.splits
     intro!: arg_cong[where f = "append_bytes a s l"] memory.equality)
  done

lemma well_formedE:
  assumes "well_formed a m"
  obtains b st where "bufs m a = Some b" "magic b = SB_BUFFER_MAGIC"
    "length (init b) = SB_BUFFER_INITIAL_CAP" "active (str b) m = Some st"
    "length st = unat (cap b)"
    "(str b = InitOf a \<and> unat (cap b) = SB_BUFFER_INITIAL_CAP) \<or> (\<exists>k. str b = Block k \<and> k < next_block m)"
  using assms by (auto simp: well_formed_def split: option.splits ptr.splits)

lemma inv_bufE:
  assumes "inv_buf a m"
  obtains b st where "bufs m a = Some b" "magic b = SB_BUFFER_MAGIC"
    "length (init b) = SB_BUFFER_INITIAL_CAP" "active (str b) m = Some st"
    "length st = unat (cap b)" "unat (len b) < unat (cap b)" "st ! unat (len b) = 0"
    "(str b = InitOf a \<and> unat (cap b) = SB_BUFFER_INITIAL_CAP) \<or> (\<exists>k. str b = Block k \<and> k < next_block m)"
  using assms
  by (auto simp: inv_buf_def well_formed_def terminated_def word_less_nat_alt split: option.splits ptr.splits)

lemma put_len_effect:
  assumes b: "bufs P a = Some b" and p: "str b = InitOf a \<or> str b = Block k"
  shows "\<exists>m'. put (str b) X (set_fields a (\<lambda>b. b\<lparr>len := len b + l\<rparr>) P) = Some m' \<and>
     bufs m' a = Some (b\<lparr>len := len b + l, init := (if str b = InitOf a then X else init b)\<rparr>) \<and>
     active (str b) m' = Some X \<and>
     (\<forall>a'. a' \<noteq> a \<longrightarrow> bufs m' a' = bufs P a') \<and>
     (\<forall>k'. Block k' \<noteq> str b \<longrightarrow> heap m' k' = heap P k') \<and>
     next_block m' = next_block P \<and> allocs m' = allocs P \<and> junk m' = junk P \<and>
     stderr m' = stderr P"
  using assms by (auto simp: put_def set_fields_def active_def)

subsection \<open>The effect of an append\<close>

lemma length_splice:
  "length vs = n \<Longrightarrow> L + n < length st \<Longrightarrow>
   length ((take L st @ vs @ drop (L + n) st)[L + n := v]) = length st"
  by simp

lemma take_splice:
  "length vs = n \<Longrightarrow> L + n < length st \<Longrightarrow>
   take (L + n) ((take L st @ vs @ drop (L + n) st)[L + n := v]) = take L st @ vs"
  by simp

lemma nth_splice:
  "length vs = n \<Longrightarrow> L + n < length st \<Longrightarrow>
   ((take L st @ vs @ drop (L + n) st)[L + n := v]) ! (L + n) = v"
  by (simp add: nth_list_update_eq)

lemma load_length: "load s n m = Some vs \<Longrightarrow> length vs = n"
  by (auto simp: load_def split: if_splits option.splits)

lemma append_bytes_wf:
  assumes wf: "well_formed a P" and b: "bufs P a = Some b" and st: "active (str b) P = Some st"
    and r: "append_bytes a s l P = Returns (r, m')"
  obtains vs b' st' where "r = 1" "load s (unat l) P = Some vs"
    "bufs m' a = Some b'" "str b' = str b" "cap b' = cap b" "len b' = len b + l"
    "unat (len b') = unat (len b) + unat l"
    "active (str b) m' = Some st'" "length st' = length st"
    "take (unat (len b')) st' = take (unat (len b)) st @ vs"
    "inv_buf a m'"
    "\<And>a'. a' \<noteq> a \<Longrightarrow> bufs m' a' = bufs P a'"
    "\<And>k'. Block k' \<noteq> str b \<Longrightarrow> heap m' k' = heap P k'"
    "next_block m' = next_block P" "allocs m' = allocs P"
proof -
  from wf b st have mg: "magic b = SB_BUFFER_MAGIC" and li: "length (init b) = SB_BUFFER_INITIAL_CAP"
    and ls: "length st = unat (cap b)"
    and p: "(str b = InitOf a \<and> unat (cap b) = SB_BUFFER_INITIAL_CAP) \<or> (\<exists>k. str b = Block k \<and> k < next_block P)"
    by (auto simp: well_formed_def split: option.splits ptr.splits)
  from p obtain k where p': "str b = InitOf a \<or> str b = Block k" by auto
  have lt: "length st < 2^64" using ls unsigned_less[of "cap b", where ?'a = nat] by simp
  let ?L = "unat (len b)" and ?n = "unat l"
  from r append_bytes_eq[OF b st lt p', of s l]
  obtain vs where vs: "load s ?n P = Some vs" and bound: "?L + ?n < length st"
    and pt: "put (str b) ((take ?L st @ vs @ drop (?L + ?n) st)[?L + ?n := 0])
               (set_fields a (\<lambda>b. b\<lparr>len := len b + l\<rparr>) P) = Some m'" and r1: "r = 1"
    by (auto simp: lift_def split: if_splits option.splits)
  let ?X = "(take ?L st @ vs @ drop (?L + ?n) st)[?L + ?n := 0]"
  have lvs: "length vs = ?n" using vs by (rule load_length)
  from put_len_effect[OF b p', of ?X l] pt
  have b': "bufs m' a = Some (b\<lparr>len := len b + l, init := (if str b = InitOf a then ?X else init b)\<rparr>)"
    and act: "active (str b) m' = Some ?X"
    and fr1: "\<And>a'. a' \<noteq> a \<Longrightarrow> bufs m' a' = bufs P a'"
    and fr2: "\<And>k'. Block k' \<noteq> str b \<Longrightarrow> heap m' k' = heap P k'"
    and nb: "next_block m' = next_block P" and al: "allocs m' = allocs P"
    by auto
  have nw: "unat (len b + l) = ?L + ?n" using bound lt by (simp add: unat_add_nowrap)
  have lX: "length ?X = length st" using lvs bound by simp
  have tX: "take (?L + ?n) ?X = take ?L st @ vs" using lvs bound by simp
  have nX: "?X ! (?L + ?n) = 0" using lvs bound by (simp add: nth_list_update_eq)
  have sti: "str b = InitOf a \<Longrightarrow> st = init b" using st b by (simp add: active_def)
  have wf': "well_formed a m'"
    using b' act mg li ls p lX nb sti by (auto simp: well_formed_def)
  have tm': "terminated a m'"
    using b' act nw bound ls lX nX by (auto simp: terminated_def word_less_nat_alt)
  let ?b' = "b\<lparr>len := len b + l, init := (if str b = InitOf a then ?X else init b)\<rparr>"
  have inv': "inv_buf a m'" using wf' tm' by (simp add: inv_buf_def)
  have tX': "take (unat (len ?b')) ?X = take ?L st @ vs" using tX nw by simp
  show ?thesis
    apply (rule that[of vs ?b' ?X])
    subgoal by (rule r1)
    subgoal by (rule vs)
    subgoal by (rule b')
    subgoal by simp
    subgoal by simp
    subgoal by simp
    subgoal using nw by simp
    subgoal by (rule act)
    subgoal by (rule lX)
    subgoal by (rule tX')
    subgoal by (rule inv')
    subgoal by (rule fr1)
    subgoal by (rule fr2)
    subgoal by (rule nb)
    subgoal by (rule al)
    done
qed

lemma add_lstring_cases:
  assumes inv: "inv_buf a m" and b: "bufs m a = Some b" and st: "active (str b) m = Some st"
    and r: "sb_buffer_add_lstring (Some a) s l m = Returns (r, m')"
  shows "(r = 0 \<and> cap b - len b \<le> l \<and> (\<exists>os. allocs m = False # os \<and> m' = m\<lparr>allocs := os\<rparr>)) \<or>
         (\<not> cap b - len b \<le> l \<and> append_bytes a s l m = Returns (r, m')) \<or>
         (cap b - len b \<le> l \<and> (\<forall>os. allocs m \<noteq> False # os) \<and>
          (\<exists>X nc. length X = unat nc \<and>
                  (unat (len b) \<le> unat nc \<longrightarrow> take (unat (len b)) X = take (unat (len b)) st) \<and>
                  append_bytes a s l (prep a b X nc m) = Returns (r, m')))"
proof -
  from inv b st have mg: "magic b = SB_BUFFER_MAGIC" and li: "length (init b) = SB_BUFFER_INITIAL_CAP"
    and ls: "length st = unat (cap b)" and lc: "unat (len b) < unat (cap b)"
    and p: "(str b = InitOf a \<and> unat (cap b) = SB_BUFFER_INITIAL_CAP) \<or> (\<exists>k. str b = Block k \<and> k < next_block m)"
    by (auto elim!: inv_bufE)
  show ?thesis
  proof (cases "cap b - len b \<le> l")
    case False
    then show ?thesis using add_fits[OF b mg False, of s] r by simp
  next
    case True
    note grows = this
    show ?thesis
    proof (cases "grow (cap b) (len b + l + 1)")
      case None
      then show ?thesis using add_diverges[OF b mg grows None, of s] r by simp
    next
      case (Some nc)
      show ?thesis
      proof (cases "\<exists>os. allocs m = False # os")
        case True
        then obtain os where os: "allocs m = False # os" by blast
        have "str b = InitOf a \<or> (\<exists>k. str b = Block k \<and> heap m k = Some st)"
          using p st by (auto simp: active_def)
        then obtain k where "str b = InitOf a \<or> (str b = Block k \<and> heap m k = Some st)" by blast
        from add_alloc_fails[OF b mg grows Some os this, of s] r os show ?thesis
          using grows by auto
      next
        case False
        then have na: "\<forall>os. allocs m \<noteq> False # os" by blast
        from p show ?thesis
        proof
          assume i: "str b = InitOf a \<and> unat (cap b) = SB_BUFFER_INITIAL_CAP"
          then have sti: "st = init b" using st b by (simp add: active_def)
          have le: "unat (len b) \<le> length (init b)" using lc i li by simp
          let ?X = "take (unat (len b)) (init b) @ replicate (unat nc - unat (len b)) (junk m)"
          from add_grow_inline[OF b mg grows Some na conjunct1[OF i] le, of s] r
          have nlt: "\<not> unat nc < unat (len b)" and ab: "append_bytes a s l (prep a b ?X nc m) = Returns (r, m')"
            by (auto split: if_splits)
          have lX: "length ?X = unat nc" using nlt le by simp
          have tX: "take (unat (len b)) ?X = take (unat (len b)) st" using le sti by simp
          have "\<exists>X nc. length X = unat nc \<and>
                  (unat (len b) \<le> unat nc \<longrightarrow> take (unat (len b)) X = take (unat (len b)) st) \<and>
                  append_bytes a s l (prep a b X nc m) = Returns (r, m')"
            using lX tX ab by blast
          then show ?thesis using grows na by blast
        next
          assume "\<exists>k. str b = Block k \<and> k < next_block m"
          then obtain k where k: "str b = Block k" by blast
          then have hk: "heap m k = Some st" using st by (simp add: active_def)
          let ?X = "take (unat nc) st @ replicate (unat nc - length st) (junk m)"
          from add_grow_heap[OF b mg grows Some na k hk, of s] r
          have ab: "append_bytes a s l (prep a b ?X nc m) = Returns (r, m')" by simp
          have lX: "length ?X = unat nc" by simp
          have tX: "unat (len b) \<le> unat nc \<longrightarrow> take (unat (len b)) ?X = take (unat (len b)) st"
            using lc ls by (simp add: min_def)
          have "\<exists>X nc. length X = unat nc \<and>
                  (unat (len b) \<le> unat nc \<longrightarrow> take (unat (len b)) X = take (unat (len b)) st) \<and>
                  append_bytes a s l (prep a b X nc m) = Returns (r, m')"
            using lX tX ab by blast
          then show ?thesis using grows na by blast
        qed
      qed
    qed
  qed
qed

lemma bufs_prep: "bufs (prep a b X nc m) = (bufs m)(a \<mapsto> b\<lparr>str := Block (next_block m), cap := nc\<rparr>)"
  by (simp add: prep_def)

lemma heap_prep_new: "heap (prep a b X nc m) (next_block m) = Some X"
  by (simp add: prep_def)

lemma heap_prep_other:
  "k' \<noteq> next_block m \<Longrightarrow> Block k' \<noteq> str b \<Longrightarrow> heap (prep a b X nc m) k' = heap m k'"
  by (auto simp: prep_def split: ptr.splits)

lemma heap_prep_old:
  "str b = Block k \<Longrightarrow> k \<noteq> next_block m \<Longrightarrow> heap (prep a b X nc m) k = None"
  by (auto simp: prep_def split: ptr.splits)

lemma next_block_prep: "next_block (prep a b X nc m) = Suc (next_block m)"
  by (simp add: prep_def)

lemma allocs_prep: "allocs (prep a b X nc m) = tl (allocs m)"
  by (simp add: prep_def)

lemma well_formed_prep:
  "magic b = SB_BUFFER_MAGIC \<Longrightarrow> length (init b) = SB_BUFFER_INITIAL_CAP \<Longrightarrow>
   length X = unat nc \<Longrightarrow> well_formed a (prep a b X nc m)"
  by (simp add: well_formed_def prep_def active_def)

lemma load_prep:
  assumes "bufs m a = Some b" "\<forall>k'. s = Block k' \<longrightarrow> k' < next_block m \<and> s \<noteq> str b"
  shows "load s n (prep a b X nc m) = load s n m"
proof (cases s)
  case (Block k')
  then have "heap (prep a b X nc m) k' = heap m k'" using assms(2) by (intro heap_prep_other) auto
  then show ?thesis using Block by (simp add: load_def active_def)
next
  case (InitOf a')
  then show ?thesis using assms(1) by (auto simp: load_def active_def bufs_prep)
qed (simp_all add: load_def active_def)

lemma add_lstring_ok:
  assumes inv: "inv_buf a m" and b: "bufs m a = Some b" and st: "active (str b) m = Some st"
    and r: "sb_buffer_add_lstring (Some a) s l m = Returns (r, m')" and r0: "r \<noteq> 0"
  obtains vs b' st' where "r = 1"
    "(\<forall>k'. s = Block k' \<longrightarrow> k' < next_block m \<and> s \<noteq> str b) \<longrightarrow> load s (unat l) m = Some vs"
    "length vs = unat l"
    "bufs m' a = Some b'" "len b' = len b + l" "unat (len b') = unat (len b) + unat l"
    "active (str b') m' = Some st'"
    "take (unat (len b')) st' = take (unat (len b)) st @ vs"
    "inv_buf a m'"
    "\<And>a'. a' \<noteq> a \<Longrightarrow> bufs m' a' = bufs m a'"
    "\<And>k'. Block k' \<noteq> str b \<Longrightarrow> k' < next_block m \<Longrightarrow> heap m' k' = heap m k'"
    "(\<not> cap b - len b \<le> l \<and> str b' = str b \<and> cap b' = cap b \<and>
        next_block m' = next_block m \<and> allocs m' = allocs m) \<or>
     (cap b - len b \<le> l \<and> str b' = Block (next_block m) \<and>
        next_block m' = Suc (next_block m) \<and> allocs m' = tl (allocs m) \<and>
        (\<forall>os. allocs m \<noteq> False # os))"
proof -
  from inv b st have mg: "magic b = SB_BUFFER_MAGIC" and li: "length (init b) = SB_BUFFER_INITIAL_CAP"
    and ls: "length st = unat (cap b)" and lc: "unat (len b) < unat (cap b)"
    and p: "(str b = InitOf a \<and> unat (cap b) = SB_BUFFER_INITIAL_CAP) \<or> (\<exists>k. str b = Block k \<and> k < next_block m)"
    by (auto elim!: inv_bufE)
  have wf: "well_formed a m" using inv by (simp add: inv_buf_def)
  from add_lstring_cases[OF inv b st r] r0
  consider (fits) "\<not> cap b - len b \<le> l" "append_bytes a s l m = Returns (r, m')"
    | (grows) X nc where "cap b - len b \<le> l" "\<forall>os. allocs m \<noteq> False # os" "length X = unat nc"
        "unat (len b) \<le> unat nc \<longrightarrow> take (unat (len b)) X = take (unat (len b)) st"
        "append_bytes a s l (prep a b X nc m) = Returns (r, m')"
    by blast
  then show ?thesis
  proof cases
    case fits
    from append_bytes_wf[OF wf b st fits(2)] obtain vs b' st' where f:
      "r = 1" "load s (unat l) m = Some vs"
      "bufs m' a = Some b'" "str b' = str b" "cap b' = cap b" "len b' = len b + l"
      "unat (len b') = unat (len b) + unat l"
      "active (str b) m' = Some st'" "length st' = length st"
      "take (unat (len b')) st' = take (unat (len b)) st @ vs"
      "inv_buf a m'"
      "\<And>a'. a' \<noteq> a \<Longrightarrow> bufs m' a' = bufs m a'"
      "\<And>k'. Block k' \<noteq> str b \<Longrightarrow> heap m' k' = heap m k'"
      "next_block m' = next_block m" "allocs m' = allocs m"
      by blast
    show ?thesis
      apply (rule that[of vs b' st'])
      subgoal by (rule f(1))
      subgoal using f(2) by simp
      subgoal using f(2) by (rule load_length)
      subgoal by (rule f(3))
      subgoal by (rule f(6))
      subgoal by (rule f(7))
      subgoal using f(8) f(4) by simp
      subgoal by (rule f(10))
      subgoal by (rule f(11))
      subgoal by (rule f(12))
      subgoal by (rule f(13))
      subgoal using fits(1) f(4) f(5) f(14) f(15) by simp
      done
  next
    case grows
    let ?P = "prep a b X nc m"
    let ?b = "b\<lparr>str := Block (next_block m), cap := nc\<rparr>"
    have wfP: "well_formed a ?P" using mg li grows(3) by (rule well_formed_prep)
    have bP: "bufs ?P a = Some ?b" by (simp add: bufs_prep)
    have stP: "active (str ?b) ?P = Some X" by (simp add: active_def heap_prep_new)
    from append_bytes_wf[OF wfP bP stP grows(5)] obtain vs b' st' where f:
      "r = 1" "load s (unat l) ?P = Some vs"
      "bufs m' a = Some b'" "str b' = str ?b" "cap b' = cap ?b" "len b' = len ?b + l"
      "unat (len b') = unat (len ?b) + unat l"
      "active (str ?b) m' = Some st'" "length st' = length X"
      "take (unat (len b')) st' = take (unat (len ?b)) X @ vs"
      "inv_buf a m'"
      "\<And>a'. a' \<noteq> a \<Longrightarrow> bufs m' a' = bufs ?P a'"
      "\<And>k'. Block k' \<noteq> str ?b \<Longrightarrow> heap m' k' = heap ?P k'"
      "next_block m' = next_block ?P" "allocs m' = allocs ?P"
      by blast
    have "unat (len b') < unat (cap b')" using f(11) f(3) by (auto elim!: inv_bufE)
    then have Lnc: "unat (len b) \<le> unat nc" using f(7) f(5) by simp
    have tk: "take (unat (len b)) X = take (unat (len b)) st" using grows(4) Lnc by simp
    show ?thesis
      apply (rule that[of vs b' st'])
      subgoal by (rule f(1))
      subgoal using f(2) load_prep[OF b, of s "unat l" X nc] by simp
      subgoal using f(2) by (rule load_length)
      subgoal by (rule f(3))
      subgoal using f(6) by simp
      subgoal using f(7) by simp
      subgoal using f(8) f(4) by simp
      subgoal using f(10) tk by simp
      subgoal by (rule f(11))
      subgoal using f(12) by (simp add: bufs_prep)
      subgoal for k' using f(13)[of k'] heap_prep_other[of k' m b a X nc] by simp
      subgoal using grows(1,2) f(4) f(14) f(15) by (simp add: next_block_prep allocs_prep)
      done
  qed
qed

subsection \<open>The doubling loop\<close>

lemma unat_pow2: "unat ((2::size_t)^k) = 2^k mod 2^64"
proof -
  have "(2::size_t)^k = of_nat (2^k)" by simp
  then show ?thesis by (simp only: unat_of_nat) simp
qed

lemma pow2_le: "(2::size_t)^k \<le> 2^63" if "k \<le> 63"
proof -
  have "(2::nat)^k \<le> 2^63" using that by (intro power_increasing) auto
  then show ?thesis by (simp add: word_le_nat_alt unat_pow2)
qed

lemma grow_zero: "grow 0 need = None"
proof -
  have "c \<noteq> 0" if "grow c need = Some y" for c y
  proof (rule grow.raw_induct[where P = "\<lambda>c n y. c \<noteq> 0", OF _ that])
    fix g :: "size_t \<Rightarrow> size_t \<Rightarrow> size_t option" and c n y
    assume IH: "\<And>c n y. g c n = Some y \<Longrightarrow> c \<noteq> 0"
      and eq: "(if c \<le> n then g (c * 2) n else Some c) = Some y"
    show "c \<noteq> 0"
    proof
      assume "c = 0"
      with eq have "g 0 n = Some y" by simp
      from IH[OF this] show False by simp
    qed
  qed
  then show ?thesis by (cases "grow 0 need") auto
qed

lemma grow_pow2:
  assumes "2^63 \<le> need" and "k \<le> 64"
  shows "grow (2^k) need = None"
  using assms(2)
proof (induction "64 - k" arbitrary: k)
  case 0
  then have "k = 64" by simp
  then have "(2::size_t)^k = 0" by simp
  then show ?case by (simp only: grow_zero)
next
  case (Suc d)
  then have k: "k \<le> 63" by simp
  have "(2::size_t)^k \<le> 2^63"
    using k by (rule pow2_le)
  then have le: "(2::size_t)^k \<le> need" using assms(1) by simp
  have "grow (2^k) need = grow (2^k * 2) need"
    by (subst grow.simps) (simp add: le)
  also have "\<dots> = grow (2^(Suc k)) need" by (simp add: mult.commute)
  also have "\<dots> = None" by (rule Suc.hyps(1)) (use Suc.hyps(2) k in simp_all)
  finally show ?case .
qed

lemma grow_terminates:
  "c \<noteq> 0 \<Longrightarrow> need < 2^63 \<Longrightarrow> \<exists>nc. grow c need = Some nc \<and> need < nc"
proof (induction "Suc (unat need) - unat c" arbitrary: c rule: less_induct)
  case less
  show ?case
  proof (cases "c \<le> need")
    case False
    have "grow c need = Some c" by (subst grow.simps) (simp only: False if_False)
    then show ?thesis using False by (simp add: not_le)
  next
    case True
    have n63: "unat need < 2^63" using less.prems(2) by (simp add: word_less_nat_alt)
    have cle: "unat c \<le> unat need" using True by (simp add: word_le_nat_alt)
    have cpos: "0 < unat c" using less.prems(1) by (simp add: unat_gt_0)
    have u2: "unat (c * 2) = 2 * unat c"
      using cle n63 by (simp add: unat_word_ariths)
    then have nz: "c * 2 \<noteq> 0" using cpos by (metis mult_eq_0_iff unat_0 not_less0 zero_neq_numeral less_numeral_extra(3))
    have "Suc (unat need) - unat (c * 2) < Suc (unat need) - unat c"
      using u2 cpos cle by simp
    from less.hyps[OF this nz less.prems(2)] obtain nc where
      "grow (c * 2) need = Some nc" "need < nc" by blast
    then show ?thesis using True by (subst grow.simps) simp
  qed
qed

subsection \<open>Content after appends and after construction\<close>

lemma deref_valid:
  "bufs m a = Some b \<Longrightarrow> magic b = SB_BUFFER_MAGIC \<Longrightarrow> deref_buffer (Some a) m = Valid a b"
  by (simp add: deref_buffer_def)

lemma content_valid:
  assumes "inv_buf a m" "bufs m a = Some b" "active (str b) m = Some st"
  shows "content a m = Some (take (unat (len b)) st)" and "length_of a m = Some (unat (len b))"
proof -
  from assms have mg: "magic b = SB_BUFFER_MAGIC" and lc: "unat (len b) < length st"
    by (auto elim!: inv_bufE)
  show "content a m = Some (take (unat (len b)) st)"
    using assms(2,3) mg lc
    by (simp add: content_def sb_buffer_get_str_def sb_buffer_get_len_def deref_buffer_def load_def)
  show "length_of a m = Some (unat (len b))"
    using assms(2) mg
    by (simp add: length_of_def sb_buffer_get_len_def deref_buffer_def)
qed

lemma unat_of_nat_len: "n < 2^64 \<Longrightarrow> unat (of_nat n :: size_t) = n"
  by (simp add: unat_of_nat)

lemma load_Extern: "load (Extern bs) (length bs) m = Some bs"
  by (simp add: load_def active_def)

lemma append_step:
  assumes inv: "inv_buf a m" and c: "content a m = Some c" and n: "length bs < 2^64"
    and r: "sb_buffer_add_lstring (Some a) (Extern bs) (of_nat (length bs)) m = Returns (r, m')"
    and r0: "r \<noteq> 0"
  shows "inv_buf a m' \<and> content a m' = Some (c @ bs) \<and>
         length_of a m' = Some (length c + length bs)"
proof -
  from inv obtain b st where b: "bufs m a = Some b" and st: "active (str b) m = Some st"
    by (auto elim!: inv_bufE)
  have un: "unat (of_nat (length bs) :: size_t) = length bs" using n by (rule unat_of_nat_len)
  have c': "c = take (unat (len b)) st" using content_valid(1)[OF inv b st] c by simp
  have lc: "unat (len b) < length st" using inv b st by (auto elim!: inv_bufE)
  show ?thesis
  proof (rule add_lstring_ok[OF inv b st r r0], goal_cases)
    case (1 vs b' st')
    have vs: "vs = bs" using 1(2) un by (simp add: load_Extern)
    have "content a m' = Some (take (unat (len b')) st')" "length_of a m' = Some (unat (len b'))"
      using content_valid[OF 1(9) 1(4) 1(7)] by auto
    then show ?case using 1(8) 1(9) 1(6) vs c' un lc by simp
  qed
qed

lemma appends_content:
  assumes "inv_buf a m" "content a m = Some c" "\<forall>s\<in>set ss. length s < 2^64"
    "appends a ss m = Some m'"
  shows "inv_buf a m' \<and> content a m' = Some (c @ concat ss) \<and>
         length_of a m' = Some (length c + sum_list (map length ss))"
  using assms
proof (induction ss arbitrary: m c)
  case Nil
  from Nil(1) obtain b st where b: "bufs m a = Some b" and st: "active (str b) m = Some st"
    and lc: "unat (len b) < length st"
    by (auto elim!: inv_bufE)
  show ?case using Nil content_valid[OF Nil(1) b st] lc by auto
next
  case (Cons s ss)
  from Cons.prems(4) obtain r m1 where
    r: "sb_buffer_add_lstring (Some a) (Extern s) (of_nat (length s)) m = Returns (r, m1)"
    and r1: "r = 1" and rest: "appends a ss m1 = Some m'"
    by (auto split: outcome.splits if_splits)
  have "length s < 2^64" using Cons.prems(3) by simp
  from append_step[OF Cons.prems(1,2) this r] r1
  have i1: "inv_buf a m1" and c1: "content a m1 = Some (c @ s)" by auto
  have "\<forall>s\<in>set ss. length s < 2^64" using Cons.prems(3) by simp
  from Cons.IH[OF i1 c1 this rest] show ?case by simp
qed

lemma init_ok:
  assumes "bufs m a = Some b0" "length (init b0) = SB_BUFFER_INITIAL_CAP"
  shows "\<exists>m'. sb_buffer_init (Some a) m = Returns (1, m') \<and> inv_buf a m' \<and>
     content a m' = Some [] \<and> length_of a m' = Some 0 \<and> inline_backed a m' \<and>
     heap m' = heap m \<and> next_block m' = next_block m \<and> allocs m' = allocs m \<and>
     (\<forall>a'. a' \<noteq> a \<longrightarrow> bufs m' a' = bufs m a')"
proof -
  let ?m' = "m\<lparr>bufs := (bufs m)(a \<mapsto> b0\<lparr>magic := SB_BUFFER_MAGIC, len := 0, cap := 256, str := InitOf a, init := 0 # drop 1 (init b0)\<rparr>)\<rparr>"
  have r: "sb_buffer_init (Some a) m = Returns (1, ?m')"
    using assms
    by (simp add: sb_buffer_init_def set_fields_def store_def active_def put_def lift_def
      SB_BUFFER_INITIAL_CAP_def)
  have i: "inv_buf a ?m'" using assms
    by (simp add: inv_buf_def well_formed_def terminated_def active_def SB_BUFFER_INITIAL_CAP_def)
  have c: "content a ?m' = Some [] \<and> length_of a ?m' = Some 0 \<and> inline_backed a ?m'"
    by (simp add: content_def length_of_def inline_backed_def
      sb_buffer_get_str_def sb_buffer_get_len_def deref_buffer_def load_def)
  show ?thesis using r i c by simp
qed

subsection \<open>The concrete stores\<close>

lemma init_mem0: "sb_buffer_init (Some 0) mem0 = Returns (1, mem1)"
  by (simp add: sb_buffer_init_def mem0_def mem1_def raw_def buf1_def set_fields_def store_def
      active_def put_def lift_def SB_BUFFER_INITIAL_CAP_def)

lemma inv_mem1: "inv_buf 0 mem1"
  by (simp add: inv_buf_def well_formed_def terminated_def mem1_def buf1_def active_def
      SB_BUFFER_INITIAL_CAP_def SB_BUFFER_MAGIC_def)

lemma bufs_mem1: "bufs mem1 0 = Some buf1"
  by (simp add: mem1_def)

lemmas eval_defs = sb_buffer_add_lstring_def deref_buffer_def append_bytes_def memcpy_def
  load_def store_def active_def put_def set_fields_def lift_def malloc_def realloc_def
  mem1_def buf1_def SB_BUFFER_MAGIC_def Let_def word_le_nat_alt word_less_nat_alt

subsection \<open>Reset, clear and copy\<close>

lemma upd0: "xs \<noteq> [] \<Longrightarrow> 0 # drop (Suc 0) xs = xs[0 := 0]"
  by (cases xs) auto

lemma reset_valid:
  assumes "inv_buf a m" "bufs m a = Some b"
  shows "sb_buffer_reset (Some a) m = Returns (1, reset_state a b m)"
proof -
  from assms obtain st where mg: "magic b = SB_BUFFER_MAGIC"
    and li: "length (init b) = SB_BUFFER_INITIAL_CAP" and st: "active (str b) m = Some st"
    and p: "(str b = InitOf a \<and> unat (cap b) = SB_BUFFER_INITIAL_CAP) \<or> (\<exists>k. str b = Block k \<and> k < next_block m)"
    by (auto elim!: inv_bufE)
  have ne: "init b \<noteq> []" using li by (auto simp: SB_BUFFER_INITIAL_CAP_def)
  from p show ?thesis
  proof
    assume "str b = InitOf a \<and> unat (cap b) = SB_BUFFER_INITIAL_CAP"
    then show ?thesis using assms(2) mg li ne
      by (auto simp: sb_buffer_reset_def deref_buffer_def lift_def set_fields_def Let_def
          store_def active_def put_def reset_state_def upd0 SB_BUFFER_INITIAL_CAP_def
          intro!: memory.equality)
  next
    assume "\<exists>k. str b = Block k \<and> k < next_block m"
    then obtain k where k: "str b = Block k" by blast
    then have "heap m k = Some st" using st by (simp add: active_def)
    then show ?thesis using assms(2) mg li ne k
      by (auto simp: sb_buffer_reset_def deref_buffer_def lift_def set_fields_def Let_def
          store_def active_def put_def reset_state_def upd0 free_def SB_BUFFER_INITIAL_CAP_def
          intro!: memory.equality)
  qed
qed

lemma finalize_eq_reset:
  assumes "deref_buffer p m = Valid a b"
  shows "sb_buffer_finalize p m = sb_buffer_reset p m"
  using assms
  by (auto simp: sb_buffer_finalize_def sb_buffer_reset_def lift_def set_fields_def Let_def
      store_def active_def put_def free_def deref_buffer_def
      split: option.splits ptr.splits if_splits intro!: memory.equality)

lemma quiet_reset_finalize: "quiet (sb_buffer_reset p m) = quiet (sb_buffer_finalize p m)"
proof (cases "deref_buffer p m")
  case Invalid
  then show ?thesis
    by (simp add: sb_buffer_finalize_def sb_buffer_reset_def quiet_def diag_def)
next
  case (Valid a b)
  then show ?thesis by (simp add: finalize_eq_reset)
next
  case Wild
  then show ?thesis by (simp add: sb_buffer_finalize_def sb_buffer_reset_def)
qed


lemma rep_upd: "(replicate n x @ replicate (Suc k) y)[n := v] = replicate n x @ v # replicate k y"
  by (simp add: list_update_append)

lemma add300: "sb_buffer_add_lstring (Some 0) (Extern (replicate 300 65)) 300 mem1 = Returns (1, mem300)"
  apply (simp add: eval_defs grow.simps mem300_def buf300_def)
  done


lemma reset_state_props:
  assumes "inv_buf a m" "bufs m a = Some b"
  shows "inv_buf a (reset_state a b m)"
    and "content a (reset_state a b m) = Some []"
    and "length_of a (reset_state a b m) = Some 0"
    and "inline_backed a (reset_state a b m)"
    and "bufs (reset_state a b m) a = Some (b\<lparr>len := 0, cap := of_nat SB_BUFFER_INITIAL_CAP, str := InitOf a, init := (init b)[0 := 0]\<rparr>)"
    and "\<And>a'. a' \<noteq> a \<Longrightarrow> bufs (reset_state a b m) a' = bufs m a'"
    and "\<And>k'. Block k' \<noteq> str b \<Longrightarrow> heap (reset_state a b m) k' = heap m k'"
    and "\<And>k. str b = Block k \<Longrightarrow> heap (reset_state a b m) k = None"
    and "next_block (reset_state a b m) = next_block m"
    and "allocs (reset_state a b m) = allocs m"
proof -
  from assms have mg: "magic b = SB_BUFFER_MAGIC"
    and li: "length (init b) = SB_BUFFER_INITIAL_CAP"
    by (auto elim!: inv_bufE)
  show "inv_buf a (reset_state a b m)" using mg li
    by (simp add: inv_buf_def well_formed_def terminated_def reset_state_def active_def
        SB_BUFFER_INITIAL_CAP_def word_less_nat_alt)
  show "content a (reset_state a b m) = Some []" using mg
    by (simp add: content_def sb_buffer_get_str_def sb_buffer_get_len_def deref_buffer_def
        load_def reset_state_def)
  show "length_of a (reset_state a b m) = Some 0" using mg
    by (simp add: length_of_def sb_buffer_get_len_def deref_buffer_def reset_state_def)
  show "inline_backed a (reset_state a b m)"
    by (simp add: inline_backed_def reset_state_def)
  show "bufs (reset_state a b m) a = Some (b\<lparr>len := 0, cap := of_nat SB_BUFFER_INITIAL_CAP, str := InitOf a, init := (init b)[0 := 0]\<rparr>)"
    by (simp add: reset_state_def)
  show "\<And>a'. a' \<noteq> a \<Longrightarrow> bufs (reset_state a b m) a' = bufs m a'"
    by (simp add: reset_state_def)
  show "\<And>k'. Block k' \<noteq> str b \<Longrightarrow> heap (reset_state a b m) k' = heap m k'"
    by (auto simp: reset_state_def split: ptr.splits)
  show "\<And>k. str b = Block k \<Longrightarrow> heap (reset_state a b m) k = None"
    by (auto simp: reset_state_def split: ptr.splits)
  show "next_block (reset_state a b m) = next_block m" by (simp add: reset_state_def)
  show "allocs (reset_state a b m) = allocs m" by (simp add: reset_state_def)
qed

lemma active_allocs: "active p (m\<lparr>allocs := os\<rparr>) = active p m"
  by (simp add: active_def split: ptr.splits)

lemma load_allocs: "load p n (m\<lparr>allocs := os\<rparr>) = load p n m"
  by (simp add: load_def active_allocs)

lemma active_stderr: "active p (m\<lparr>stderr := e\<rparr>) = active p m"
  by (simp add: active_def split: ptr.splits)

lemma load_stderr: "load p n (m\<lparr>stderr := e\<rparr>) = load p n m"
  by (simp add: load_def active_stderr)

lemma inv_allocs: "inv_buf a (m\<lparr>allocs := os\<rparr>) = inv_buf a m"
  by (simp add: inv_buf_def well_formed_def terminated_def active_allocs
      cong: option.case_cong ptr.case_cong)

lemma content_allocs: "content a (m\<lparr>allocs := os\<rparr>) = content a m"
  by (simp add: content_def sb_buffer_get_str_def sb_buffer_get_len_def deref_buffer_def
      load_allocs load_stderr diag_def split: option.splits)

lemma length_of_allocs: "length_of a (m\<lparr>allocs := os\<rparr>) = length_of a m"
  by (simp add: length_of_def sb_buffer_get_len_def deref_buffer_def split: option.splits)

lemma inv_mem300: "inv_buf 0 mem300"
  by (simp add: inv_buf_def well_formed_def terminated_def mem300_def buf300_def active_def
      SB_BUFFER_INITIAL_CAP_def SB_BUFFER_MAGIC_def word_less_nat_alt nth_append)

lemma fits_iff:
  assumes "unat (len b) < unat (cap b)"
  shows "(\<not> cap b - len b \<le> l) = (unat (len b) + unat l < unat (cap b))"
proof -
  have "len b \<le> cap b" using assms by (simp add: word_le_nat_alt)
  then have "unat (cap b - len b) = unat (cap b) - unat (len b)" by (rule unat_sub)
  then show ?thesis using assms by (auto simp: word_le_nat_alt)
qed

lemma add_fits_succeeds:
  assumes inv: "inv_buf a m" and b: "bufs m a = Some b"
    and fit: "unat (len b) + unat l < unat (cap b)"
    and ld: "load s (unat l) m = Some vs"
    and nov: "\<not> (0 < unat l \<and> s = str b \<and> unat (len b) < unat l)"
  shows "\<exists>m'. sb_buffer_add_lstring (Some a) s l m = Returns (1, m')"
proof -
  from inv b obtain st where mg: "magic b = SB_BUFFER_MAGIC"
    and st: "active (str b) m = Some st" and ls: "length st = unat (cap b)"
    and lc: "unat (len b) < unat (cap b)"
    and p: "(str b = InitOf a \<and> unat (cap b) = SB_BUFFER_INITIAL_CAP) \<or> (\<exists>k. str b = Block k \<and> k < next_block m)"
    by (auto elim!: inv_bufE)
  from p obtain k where p': "str b = InitOf a \<or> str b = Block k" by auto
  have lt: "length st < 2^64" using ls unsigned_less[of "cap b", where ?'a = nat] by simp
  have nf: "\<not> cap b - len b \<le> l" using fit fits_iff[OF lc] by simp
  let ?X = "(take (unat (len b)) st @ vs @ drop (unat (len b) + unat l) st)[unat (len b) + unat l := 0]"
  from put_len_effect[OF b p', of ?X l] obtain m' where
    "put (str b) ?X (set_fields a (\<lambda>b. b\<lparr>len := len b + l\<rparr>) m) = Some m'" by blast
  then have "append_bytes a s l m = Returns (1, m')"
    using append_bytes_eq[OF b st lt p', of s l] nov ld fit ls by (simp add: lift_def)
  then show ?thesis using add_fits[OF b mg nf, of s] by simp
qed

lemma clear_valid:
  assumes inv: "inv_buf a m" and b: "bufs m a = Some b" and st: "active (str b) m = Some st"
  shows "\<exists>m'. sb_buffer_clear (Some a) m = Returns (1, m') \<and>
     bufs m' a = Some (b\<lparr>len := 0, init := (if str b = InitOf a then st[0 := 0] else init b)\<rparr>) \<and>
     active (str b) m' = Some (st[0 := 0]) \<and>
     (\<forall>a'. a' \<noteq> a \<longrightarrow> bufs m' a' = bufs m a') \<and>
     (\<forall>k'. Block k' \<noteq> str b \<longrightarrow> heap m' k' = heap m k') \<and>
     next_block m' = next_block m \<and> allocs m' = allocs m \<and> inv_buf a m'"
proof -
  from inv b st have mg: "magic b = SB_BUFFER_MAGIC"
    and li: "length (init b) = SB_BUFFER_INITIAL_CAP" and ls: "length st = unat (cap b)"
    and lc: "unat (len b) < unat (cap b)"
    and p: "(str b = InitOf a \<and> unat (cap b) = SB_BUFFER_INITIAL_CAP) \<or> (\<exists>k. str b = Block k \<and> k < next_block m)"
    by (auto elim!: inv_bufE)
  have ne: "st \<noteq> []" using ls lc by auto
  from p show ?thesis
  proof
    assume i: "str b = InitOf a \<and> unat (cap b) = SB_BUFFER_INITIAL_CAP"
    then have sti: "st = init b" using st b by (simp add: active_def)
    show ?thesis using b mg li i sti ne
      by (auto simp: sb_buffer_clear_def deref_buffer_def lift_def set_fields_def Let_def
          store_def active_def put_def upd0 inv_buf_def well_formed_def terminated_def
          word_less_nat_alt SB_BUFFER_INITIAL_CAP_def)
  next
    assume "\<exists>k. str b = Block k \<and> k < next_block m"
    then obtain k where k: "str b = Block k" "k < next_block m" by blast
    then have hk: "heap m k = Some st" using st by (simp add: active_def)
    show ?thesis using b mg li k hk ne ls lc
      by (auto simp: sb_buffer_clear_def deref_buffer_def lift_def set_fields_def Let_def
          store_def active_def put_def upd0 inv_buf_def well_formed_def terminated_def
          word_less_nat_alt)
  qed
qed


lemma copy_valid:
  assumes "inv_buf sa m" "bufs m sa = Some sb" "inv_buf da m" "bufs m da = Some db"
  shows "sb_buffer_copy (Some sa) (Some da) m =
     (case bufs (reset_state da db m) sa of None \<Rightarrow> Fault
      | Some sb1 \<Rightarrow> sb_buffer_add_lstring (Some da) (str sb1) (len sb1) (reset_state da db m))"
proof -
  from assms have mg: "magic sb = SB_BUFFER_MAGIC" "magic db = SB_BUFFER_MAGIC"
    by (auto elim!: inv_bufE)
  show ?thesis
    using assms(2,4) mg reset_valid[OF assms(3,4)]
    by (simp add: sb_buffer_copy_def sb_buffer_isbuffer_def deref_buffer_def)
qed

lemma copy_self:
  assumes "inv_buf a m"
  shows "\<exists>m'. sb_buffer_copy (Some a) (Some a) m = Returns (1, m') \<and>
           length_of a m' = Some 0 \<and> content a m' = Some [] \<and>
           inline_backed a m' \<and> inv_buf a m'"
proof -
  from assms obtain b where b: "bufs m a = Some b" by (auto elim!: inv_bufE)
  let ?R = "reset_state a b m"
  let ?bR = "b\<lparr>len := 0, cap := of_nat SB_BUFFER_INITIAL_CAP, str := InitOf a, init := (init b)[0 := 0]\<rparr>"
  note ps = reset_state_props[OF assms b]
  have bR: "bufs ?R a = Some ?bR" by (rule ps(5))
  have cp: "sb_buffer_copy (Some a) (Some a) m = sb_buffer_add_lstring (Some a) (InitOf a) 0 ?R"
    using copy_valid[OF assms b assms b] bR by simp
  have fit: "unat (len ?bR) + unat (0::size_t) < unat (cap ?bR)"
    by (simp add: SB_BUFFER_INITIAL_CAP_def)
  have ld: "load (InitOf a) (unat (0::size_t)) ?R = Some []" by (simp add: load_def)
  from add_fits_succeeds[OF ps(1) bR fit ld] obtain m' where
    r: "sb_buffer_add_lstring (Some a) (InitOf a) 0 ?R = Returns (1, m')" by auto
  obtain stR where stR: "active (str ?bR) ?R = Some stR" using ps(1) bR by (auto elim!: inv_bufE)
  have nf: "\<not> cap ?bR - len ?bR \<le> 0" by (simp add: SB_BUFFER_INITIAL_CAP_def)
  have "length_of a m' = Some 0 \<and> content a m' = Some [] \<and> inline_backed a m' \<and> inv_buf a m'"
  proof (rule add_lstring_ok[OF ps(1) bR stR r], simp, goal_cases)
    case (1 vs b' st')
    have vs: "vs = []" using 1(3) by simp
    have l0: "unat (len b') = 0" using 1(6) by simp
    have "str b' = InitOf a" using 1(12) nf by auto
    then have "inline_backed a m'" using 1(4) by (simp add: inline_backed_def)
    then show ?case
      using content_valid[OF 1(9) 1(4) 1(7)] l0 1(9) by simp
  qed
  then show ?thesis using cp r by auto
qed

subsection \<open>Independence of buffers and success of appends\<close>

lemma active_frame:
  assumes "inv_buf a m" "bufs m a = Some b" "bufs m' a = Some b"
    "\<forall>k. str b = Block k \<longrightarrow> heap m' k = heap m k"
  shows "active (str b) m' = active (str b) m"
proof -
  from assms(1,2) have "str b = InitOf a \<or> (\<exists>k. str b = Block k)" by (auto elim!: inv_bufE)
  then show ?thesis using assms(2,3,4) by (auto simp: active_def)
qed

lemma inv_frame:
  assumes "inv_buf a m" "bufs m a = Some b" "bufs m' a = Some b"
    "\<forall>k. str b = Block k \<longrightarrow> heap m' k = heap m k" "next_block m \<le> next_block m'"
  shows "inv_buf a m'"
proof -
  have act: "active (str b) m' = active (str b) m" using assms(1-4) by (rule active_frame)
  from assms(1,2) obtain st where f: "magic b = SB_BUFFER_MAGIC"
    "length (init b) = SB_BUFFER_INITIAL_CAP" "active (str b) m = Some st"
    "length st = unat (cap b)" "unat (len b) < unat (cap b)" "st ! unat (len b) = 0"
    "(str b = InitOf a \<and> unat (cap b) = SB_BUFFER_INITIAL_CAP) \<or> (\<exists>k. str b = Block k \<and> k < next_block m)"
    by (auto elim!: inv_bufE)
  show ?thesis using f act assms(3,5)
    by (auto simp: inv_buf_def well_formed_def terminated_def word_less_nat_alt)
qed

lemma content_frame:
  assumes "inv_buf a m" "bufs m a = Some b" "bufs m' a = Some b"
    "\<forall>k. str b = Block k \<longrightarrow> heap m' k = heap m k"
  shows "content a m' = content a m" and "length_of a m' = length_of a m"
proof -
  have act: "active (str b) m' = active (str b) m" using assms(1-4) by (rule active_frame)
  from assms(1,2) have mg: "magic b = SB_BUFFER_MAGIC" by (auto elim!: inv_bufE)
  show "content a m' = content a m" using assms(2,3) mg act
    by (simp add: content_def sb_buffer_get_str_def sb_buffer_get_len_def deref_buffer_def load_def)
  show "length_of a m' = length_of a m" using assms(2,3) mg
    by (simp add: length_of_def sb_buffer_get_len_def deref_buffer_def)
qed

lemma add_lstring_zero:
  assumes inv: "inv_buf a m" and r: "sb_buffer_add_lstring (Some a) s l m = Returns (r, m')"
  shows "r = 0 \<longrightarrow> (\<exists>os. m' = m\<lparr>allocs := os\<rparr>)"
proof -
  from inv obtain b st where b: "bufs m a = Some b" and st: "active (str b) m = Some st"
    by (auto elim!: inv_bufE)
  have wf: "well_formed a m" using inv by (simp add: inv_buf_def)
  have mg: "magic b = SB_BUFFER_MAGIC" and li: "length (init b) = SB_BUFFER_INITIAL_CAP"
    using inv b by (auto elim!: inv_bufE)
  from add_lstring_cases[OF inv b st r]
  consider (fail) "\<exists>os. m' = m\<lparr>allocs := os\<rparr>"
    | (fits) "append_bytes a s l m = Returns (r, m')"
    | (grows) X nc where "length X = unat nc" "append_bytes a s l (prep a b X nc m) = Returns (r, m')"
    by blast
  then show ?thesis
  proof cases
    case fail then show ?thesis by simp
  next
    case fits
    show ?thesis by (rule append_bytes_wf[OF wf b st fits]) simp
  next
    case grows
    have wfP: "well_formed a (prep a b X nc m)" using mg li grows(1) by (rule well_formed_prep)
    have bP: "bufs (prep a b X nc m) a = Some (b\<lparr>str := Block (next_block m), cap := nc\<rparr>)"
      by (simp add: bufs_prep)
    have stP: "active (str (b\<lparr>str := Block (next_block m), cap := nc\<rparr>)) (prep a b X nc m) = Some X"
      by (simp add: active_def heap_prep_new)
    show ?thesis by (rule append_bytes_wf[OF wfP bP stP grows(2)]) simp
  qed
qed

lemma add_lstring_other:
  assumes inv: "inv_buf a m" and b: "bufs m a = Some b"
    and r: "sb_buffer_add_lstring (Some a) s l m = Returns (r, m')"
    and invd: "inv_buf d m" and bd: "bufs m d = Some bd"
    and ne: "d \<noteq> a" and ns: "str bd \<noteq> str b"
  shows "bufs m' d = Some bd \<and> (\<forall>k. str bd = Block k \<longrightarrow> heap m' k = heap m k) \<and>
         next_block m \<le> next_block m'"
proof (cases "r = 0")
  case True
  then obtain os where "m' = m\<lparr>allocs := os\<rparr>" using add_lstring_zero[OF inv r] by blast
  then show ?thesis using bd by simp
next
  case False
  from inv b obtain st where st: "active (str b) m = Some st" by (auto elim!: inv_bufE)
  have kd: "\<forall>k. str bd = Block k \<longrightarrow> k < next_block m" using invd bd by (auto elim!: inv_bufE)
  show ?thesis
  proof (rule add_lstring_ok[OF inv b st r False], goal_cases)
    case (1 vs b' st')
    have "bufs m' d = Some bd" using 1(10)[OF ne] bd by simp
    moreover have "\<forall>k. str bd = Block k \<longrightarrow> heap m' k = heap m k"
      using 1(11) ns kd by auto
    moreover have "next_block m \<le> next_block m'" using 1(12) by auto
    ultimately show ?case by simp
  qed
qed


lemma content_is_load:
  assumes "inv_buf a m" "bufs m a = Some b"
  shows "content a m = load (str b) (unat (len b)) m"
proof -
  from assms have mg: "magic b = SB_BUFFER_MAGIC" by (auto elim!: inv_bufE)
  show ?thesis using assms(2) mg
    by (simp add: content_def sb_buffer_get_str_def sb_buffer_get_len_def deref_buffer_def)
qed

lemma copy_separate:
  assumes invs: "inv_buf s m" and bs: "bufs m s = Some sb"
    and invd: "inv_buf d m" and bd: "bufs m d = Some db"
    and ne: "s \<noteq> d" and ns: "str sb \<noteq> str db"
    and r: "sb_buffer_copy (Some s) (Some d) m = Returns (r, m')" and r0: "r \<noteq> 0"
  shows "content d m' = content s m \<and> length_of d m' = length_of s m \<and>
         inv_buf d m' \<and> inv_buf s m' \<and> bufs m' s = Some sb \<and>
         content s m' = content s m \<and> length_of s m' = length_of s m \<and>
         (\<exists>b'. bufs m' d = Some b' \<and> str b' \<noteq> str sb)"
proof -
  let ?R = "reset_state d db m"
  let ?bR = "db\<lparr>len := 0, cap := of_nat SB_BUFFER_INITIAL_CAP, str := InitOf d, init := (init db)[0 := 0]\<rparr>"
  note ps = reset_state_props[OF invd bd]
  have bR: "bufs ?R d = Some ?bR" by (rule ps(5))
  have bsR: "bufs ?R s = Some sb" using ps(6)[OF ne] bs by simp
  have ks: "\<forall>k. str sb = Block k \<longrightarrow> k < next_block m" using invs bs by (auto elim!: inv_bufE)
  have sp: "str sb = InitOf s \<or> (\<exists>k. str sb = Block k)" using invs bs by (auto elim!: inv_bufE)
  have hR: "\<forall>k. str sb = Block k \<longrightarrow> heap ?R k = heap m k" using ps(7) ns by auto
  have invsR: "inv_buf s ?R" using inv_frame[OF invs bs bsR hR] ps(9) by simp
  have csR: "content s ?R = content s m" "length_of s ?R = length_of s m"
    using content_frame[OF invs bs bsR hR] by auto
  have cp: "sb_buffer_add_lstring (Some d) (str sb) (len sb) ?R = Returns (r, m')"
    using copy_valid[OF invs bs invd bd] bsR r by simp
  obtain stR where stR: "active (str ?bR) ?R = Some stR" using ps(1) bR by (auto elim!: inv_bufE)
  have nsR: "str sb \<noteq> str ?bR" using sp ne by auto
  from add_lstring_other[OF ps(1) bR cp invsR bsR ne nsR]
  have f: "bufs m' s = Some sb" "\<forall>k. str sb = Block k \<longrightarrow> heap m' k = heap ?R k"
    "next_block ?R \<le> next_block m'" by auto
  have invs': "inv_buf s m'" using inv_frame[OF invsR bsR f(1) f(2) f(3)] .
  have cs': "content s m' = content s m" "length_of s m' = length_of s m"
    using content_frame[OF invsR bsR f(1) f(2)] csR by auto
  have ls: "length_of s m = Some (unat (len sb))"
    using invs bs by (auto simp: length_of_def sb_buffer_get_len_def deref_buffer_def elim!: inv_bufE)
  show ?thesis
  proof (rule add_lstring_ok[OF ps(1) bR stR cp r0], goal_cases)
    case (1 vs b' st')
    have "\<forall>k'. str sb = Block k' \<longrightarrow> k' < next_block ?R \<and> str sb \<noteq> str ?bR"
      using ks ps(9) by auto
    then have "load (str sb) (unat (len sb)) ?R = Some vs" using 1(2) by blast
    then have cv: "content s m = Some vs" using content_is_load[OF invsR bsR] csR(1) by simp
    have cd: "content d m' = Some vs" "length_of d m' = Some (unat (len sb))"
      using content_valid[OF 1(9) 1(4) 1(7)] 1(8) 1(6) by simp_all
    have "str sb \<noteq> Block (next_block m)" using ks by auto
    then have "str b' \<noteq> str sb" using 1(12) ps(9) nsR by auto
    then show ?case using cd cv ls 1(9) 1(4) invs' f(1) cs' by simp
  qed
qed


lemma add_lstring_indep:
  assumes inv: "inv_buf a m" and invd: "inv_buf d m" and sep: "separate a d m"
    and r: "sb_buffer_add_lstring (Some a) s l m = Returns (r, m')"
  shows "content d m' = content d m \<and> length_of d m' = length_of d m \<and> inv_buf d m'"
proof -
  from sep obtain b bd where b: "bufs m a = Some b" and bd: "bufs m d = Some bd"
    and ne: "d \<noteq> a" and ns: "str bd \<noteq> str b"
    by (auto simp: separate_def split: option.splits)
  from add_lstring_other[OF inv b r invd bd ne ns]
  have f: "bufs m' d = Some bd" "\<forall>k. str bd = Block k \<longrightarrow> heap m' k = heap m k"
    "next_block m \<le> next_block m'" by auto
  show ?thesis
    using content_frame[OF invd bd f(1) f(2)] inv_frame[OF invd bd f(1) f(2) f(3)] by simp
qed

lemma separate_sym: "separate a d m = separate d a m"
  by (auto simp: separate_def split: option.splits)

lemmas copy_defs = sb_buffer_copy_def sb_buffer_isbuffer_def sb_buffer_reset_def free_def

lemma copyAB: "sb_buffer_copy (Some 0) (Some 1) memAB = Returns (1, memAB2)"
  apply (simp add: copy_defs eval_defs grow.simps memAB_def memAB2_def buf300_def bufB_def bufB2_def
      SB_BUFFER_INITIAL_CAP_def)
  done

lemma inv_memAB: "inv_buf 0 memAB \<and> inv_buf 1 memAB \<and> separate 0 1 memAB"
  by (simp add: inv_buf_def well_formed_def terminated_def memAB_def buf300_def bufB_def
      active_def separate_def
      SB_BUFFER_INITIAL_CAP_def SB_BUFFER_MAGIC_def word_less_nat_alt nth_append)



lemma content_mem300: "content 0 mem300 = Some (replicate 300 65)"
  by (simp add: content_def sb_buffer_get_str_def sb_buffer_get_len_def deref_buffer_def
      load_def active_def mem300_def buf300_def)

lemma content_memAB: "content 0 memAB = Some (replicate 300 65)"
  by (simp add: content_def sb_buffer_get_str_def sb_buffer_get_len_def deref_buffer_def
      load_def active_def memAB_def buf300_def)

lemma put_Block: "\<exists>m'. put (Block k) X m = Some m'"
  by (simp add: put_def)

lemma append_bytes_prep_succeeds:
  assumes lX: "length X = unat nc" and fit: "unat (len b) + length bs < unat nc"
    and n: "length bs < 2^64"
  shows "\<exists>m'. append_bytes a (Extern bs) (of_nat (length bs)) (prep a b X nc m) = Returns (1, m')"
proof -
  let ?P = "prep a b X nc m"
  let ?b = "b\<lparr>str := Block (next_block m), cap := nc\<rparr>"
  have un: "unat (of_nat (length bs) :: size_t) = length bs" using n by (rule unat_of_nat_len)
  have bP: "bufs ?P a = Some ?b" by (simp add: bufs_prep)
  have stP: "active (str ?b) ?P = Some X" by (simp add: active_def heap_prep_new)
  have lt: "length X < 2^64" using lX unsigned_less[of nc, where ?'a = nat] by simp
  have p: "str ?b = InitOf a \<or> str ?b = Block (next_block m)" by simp
  let ?Y = "(take (unat (len ?b)) X @ bs @ drop (unat (len ?b) + length bs) X)
      [unat (len ?b) + length bs := 0]"
  let ?M = "set_fields a (\<lambda>b. b\<lparr>len := len b + of_nat (length bs)\<rparr>) ?P"
  have "\<exists>m'. put (str ?b) ?Y ?M = Some m'" by (simp add: put_def)
  then obtain m' where "put (str ?b) ?Y ?M = Some m'" ..
  then have "append_bytes a (Extern bs) (of_nat (length bs)) ?P = Returns (1, m')"
    using append_bytes_eq[OF bP stP lt p, of "Extern bs" "of_nat (length bs)"] un fit lX
    by (simp add: lift_def load_Extern)
  then show ?thesis by blast
qed

lemma add_succeeds:
  assumes inv: "inv_buf a m" and b: "bufs m a = Some b"
    and small: "unat (len b) + length bs + 1 < 2^63"
    and ok: "\<forall>os. allocs m \<noteq> False # os"
  shows "\<exists>m'. sb_buffer_add_lstring (Some a) (Extern bs) (of_nat (length bs)) m = Returns (1, m')"
proof -
  from inv b obtain st where mg: "magic b = SB_BUFFER_MAGIC"
    and li: "length (init b) = SB_BUFFER_INITIAL_CAP"
    and st: "active (str b) m = Some st" and ls: "length st = unat (cap b)"
    and lc: "unat (len b) < unat (cap b)"
    and p: "(str b = InitOf a \<and> unat (cap b) = SB_BUFFER_INITIAL_CAP) \<or> (\<exists>k. str b = Block k \<and> k < next_block m)"
    by (auto elim!: inv_bufE)
  have n: "length bs < 2^64" using small by simp
  have un: "unat (of_nat (length bs) :: size_t) = length bs" using n by (rule unat_of_nat_len)
  let ?l = "of_nat (length bs) :: size_t"
  show ?thesis
  proof (cases "cap b - len b \<le> ?l")
    case False
    then have fit: "unat (len b) + unat ?l < unat (cap b)" using fits_iff[OF lc] by simp
    have ld: "load (Extern bs) (unat ?l) m = Some bs" using un by (simp add: load_Extern)
    have nov: "\<not> (0 < unat ?l \<and> Extern bs = str b \<and> unat (len b) < unat ?l)"
      using p by auto
    from add_fits_succeeds[OF inv b fit ld nov] show ?thesis .
  next
    case True
    have u1: "unat (len b + ?l) = unat (len b) + length bs"
      using small un by (simp add: unat_add_nowrap)
    have u2: "unat (len b + ?l + 1) = unat (len b) + length bs + 1"
      using small u1 unat_add_nowrap[of "len b + ?l" 1] by simp
    have "len b + ?l + 1 < 2^63" using small u2 by (simp add: word_less_nat_alt)
    moreover have "cap b \<noteq> 0" using lc by auto
    ultimately obtain nc where g: "grow (cap b) (len b + ?l + 1) = Some nc"
      and gt: "len b + ?l + 1 < nc" using grow_terminates by blast
    have big: "unat (len b) + length bs + 1 < unat nc" using gt u2 by (simp add: word_less_nat_alt)
    then have fit: "unat (len b) + length bs < unat nc" by simp
    from p show ?thesis
    proof
      assume i: "str b = InitOf a \<and> unat (cap b) = SB_BUFFER_INITIAL_CAP"
      have le: "unat (len b) \<le> length (init b)" using lc i li by simp
      let ?X = "take (unat (len b)) (init b) @ replicate (unat nc - unat (len b)) (junk m)"
      have lX: "length ?X = unat nc" using le big by simp
      from append_bytes_prep_succeeds[OF lX fit n, of a m]
      show ?thesis using add_grow_inline[OF b mg True g ok conjunct1[OF i] le, of "Extern bs"] big
        by auto
    next
      assume "\<exists>k. str b = Block k \<and> k < next_block m"
      then obtain k where k: "str b = Block k" by blast
      then have hk: "heap m k = Some st" using st by (simp add: active_def)
      let ?X = "take (unat nc) st @ replicate (unat nc - length st) (junk m)"
      have lX: "length ?X = unat nc" by simp
      from append_bytes_prep_succeeds[OF lX fit n, of a m]
      show ?thesis using add_grow_heap[OF b mg True g ok k hk, of "Extern bs"] by auto
    qed
  qed
qed


lemma add255: "sb_buffer_add_lstring (Some 0) (Extern (replicate 255 65)) 255 mem1 = Returns (1, mem255)"
  by (simp add: eval_defs mem255_def buf255_def)

lemma heap_backedI:
  "bufs m a = Some b \<Longrightarrow> str b = Block k \<Longrightarrow> active (str b) m = Some st \<Longrightarrow> heap_backed a m"
  by (simp add: heap_backed_def active_def)

lemma content_mem1: "content 0 mem1 = Some []"
  by (simp add: content_def sb_buffer_get_str_def sb_buffer_get_len_def deref_buffer_def
      load_def mem1_def buf1_def SB_BUFFER_MAGIC_def)

subsection \<open>Success of runs of appends, and the lengths on the way to \<open>return 1\<close>\<close>

lemma allocs_ok_hd: "False \<notin> set xs \<Longrightarrow> \<forall>os. xs \<noteq> False # os"
  by auto

lemma allocs_ok_tl: "False \<notin> set xs \<Longrightarrow> False \<notin> set (tl xs)"
  by (cases xs) auto

lemma length_content:
  assumes "inv_buf a m" "bufs m a = Some b" "content a m = Some c"
  shows "length c = unat (len b)"
proof -
  from assms(1,2) obtain st where st: "active (str b) m = Some st"
    and l: "length st = unat (cap b)" "unat (len b) < unat (cap b)"
    by (auto elim!: inv_bufE)
  show ?thesis using content_valid(1)[OF assms(1,2) st] assms(3) l by auto
qed

lemma appends_total:
  assumes "inv_buf a m" "content a m = Some c" "False \<notin> set (allocs m)"
    "length c + sum_list (map length ss) + 1 < 2^63"
  shows "\<exists>m'. appends a ss m = Some m'"
  using assms
proof (induction ss arbitrary: m c)
  case Nil
  then show ?case by simp
next
  case (Cons s ss)
  from Cons.prems(1) obtain b st where b: "bufs m a = Some b"
    and st: "active (str b) m = Some st"
    by (auto elim!: inv_bufE)
  have lc: "length c = unat (len b)" using length_content[OF Cons.prems(1) b Cons.prems(2)] .
  have small: "unat (len b) + length s + 1 < 2^63" using Cons.prems(4) lc by simp
  have n: "length s < 2^64" using small by simp
  from add_succeeds[OF Cons.prems(1) b small allocs_ok_hd[OF Cons.prems(3)]] obtain m1 where
    r: "sb_buffer_add_lstring (Some a) (Extern s) (of_nat (length s)) m = Returns (1, m1)"
    by blast
  have r0: "(1::int) \<noteq> 0" by simp
  have i1: "inv_buf a m1" and c1: "content a m1 = Some (c @ s)"
    using append_step[OF Cons.prems(1,2) n r] by auto
  have "allocs m1 = allocs m \<or> allocs m1 = tl (allocs m)"
    by (rule add_lstring_ok[OF Cons.prems(1) b st r r0]) auto
  then have a1: "False \<notin> set (allocs m1)"
    using Cons.prems(3) allocs_ok_tl[OF Cons.prems(3)] by auto
  have "length (c @ s) + sum_list (map length ss) + 1 < 2^63" using Cons.prems(4) by simp
  from Cons.IH[OF i1 c1 a1 this] show ?case using r by simp
qed

lemma run4: "\<exists>m2. appends 0 [hello, replicate 300 65, replicate 300 66, replicate 2000 67] mem1 = Some m2 \<and>
   next_block m2 = 3 \<and> heap_backed 0 m2"
  by (simp add: eval_defs grow.simps hello_def heap_backed_def)




lemma unat_SIZE_MAX: "unat SIZE_MAX = 18446744073709551615"
  by (simp add: SIZE_MAX_def)









section \<open>The claims\<close>

text \<open>
  C1. Construct a buffer, then append the byte strings \<open>ss\<close> one after the other. When
  every append returns 1, the content read through \<open>sb_buffer_get_str\<close> and
  \<open>sb_buffer_get_len\<close> is the concatenation of \<open>ss\<close> and the length is the sum of the
  lengths. And every append does return 1, whatever the total length below \<open>2^63 - 1\<close>
  (inline, after the move to the heap, after any number of reallocations), when the
  allocator refuses no request.
\<close>

theorem appends_concat:
  assumes "bufs m0 a = Some b0" and "length (init b0) = SB_BUFFER_INITIAL_CAP"
    and "sb_buffer_init (Some a) m0 = Returns (r, m1)"
  shows "(\<forall>m2. (\<forall>s\<in>set ss. length s < 2^64) \<and> appends a ss m1 = Some m2 \<longrightarrow>
            content a m2 = Some (concat ss) \<and>
            length_of a m2 = Some (sum_list (map length ss))) \<and>
         (False \<notin> set (allocs m0) \<and> sum_list (map length ss) + 1 < 2^63 \<longrightarrow>
            (\<exists>m2. appends a ss m1 = Some m2 \<and> content a m2 = Some (concat ss) \<and>
                  length_of a m2 = Some (sum_list (map length ss))))"
proof -
  from init_ok[OF assms(1,2)] assms(3)
  have i: "inv_buf a m1" and c: "content a m1 = Some []" and al: "allocs m1 = allocs m0"
    by auto
  have 1: "content a m2 = Some (concat ss) \<and> length_of a m2 = Some (sum_list (map length ss))"
    if "\<forall>s\<in>set ss. length s < 2^64" "appends a ss m1 = Some m2" for m2
    using appends_content[OF i c that] by simp
  have 2: "\<exists>m2. appends a ss m1 = Some m2 \<and> content a m2 = Some (concat ss) \<and>
                  length_of a m2 = Some (sum_list (map length ss))"
    if ok: "False \<notin> set (allocs m0)" and small: "sum_list (map length ss) + 1 < 2^63"
  proof -
    have "length ([]::byte list) + sum_list (map length ss) + 1 < 2^63" using small by simp
    from appends_total[OF i c _ this] ok al obtain m2 where m2: "appends a ss m1 = Some m2"
      by auto
    have "\<forall>s\<in>set ss. length s < 2^64"
    proof
      fix s assume "s \<in> set ss"
      then have "length s \<le> sum_list (map length ss)" by (simp add: member_le_sum_list)
      then show "length s < 2^64" using small by simp
    qed
    from 1[OF this m2] m2 show ?thesis by blast
  qed
  show ?thesis using 1 2 by blast
qed


theorem appends_concat_witness:
  "bufs mem0 0 = Some raw \<and> length (init raw) = SB_BUFFER_INITIAL_CAP \<and>
   sb_buffer_init (Some 0) mem0 = Returns (1, mem1) \<and> False \<notin> set (allocs mem0) \<and>
   sum_list (map length [hello, replicate 300 65, replicate 300 66, replicate 2000 (67::byte)]) + 1
     < (2::nat)^63 \<and>
   (\<exists>m2. appends 0 [hello, replicate 300 65, replicate 300 66, replicate 2000 67] mem1 = Some m2 \<and>
     content 0 m2 = Some (hello @ replicate 300 65 @ replicate 300 66 @ replicate 2000 67) \<and>
     length_of 0 m2 = Some 2605 \<and> heap_backed 0 m2 \<and> next_block m2 = 3)"
proof -
  let ?ss = "[hello, replicate 300 65, replicate 300 66, replicate 2000 67] :: byte list list"
  have h1: "bufs mem0 0 = Some raw" by (simp add: mem0_def)
  have h2: "length (init raw) = SB_BUFFER_INITIAL_CAP"
    by (simp add: raw_def SB_BUFFER_INITIAL_CAP_def)
  have h3: "False \<notin> set (allocs mem0)" by (simp add: mem0_def)
  have h4: "sum_list (map length ?ss) + 1 < (2::nat)^63" by (simp add: hello_def)
  from appends_concat[OF h1 h2 init_mem0, of ?ss] h3 h4 obtain m2 where
    m2: "appends 0 ?ss mem1 = Some m2" "content 0 m2 = Some (concat ?ss)"
      "length_of 0 m2 = Some (sum_list (map length ?ss))"
    by blast
  have p: "heap_backed 0 m2 \<and> next_block m2 = 3" using run4 m2(1) by auto
  have c: "content 0 m2 = Some (hello @ replicate 300 65 @ replicate 300 66 @ replicate 2000 67)"
    using m2(2) by simp
  have l: "length_of 0 m2 = Some 2605" using m2(3) by (simp add: hello_def)
  show ?thesis using h1 h2 init_mem0 h3 h4 m2(1) c l p by blast
qed


text \<open>
  C5, amended. The doubling loop of a valid buffer ends with a capacity strictly greater
  than \<open>len + l + 1\<close> (computed in \<open>size_t\<close>) whenever that value is below \<open>2^63\<close>.
  From \<open>2^63\<close> on it need not end: the capacity of a fresh buffer doubles to \<open>2^63\<close>,
  then to 0, and stays there (the counterexample).
\<close>

theorem grow_terminates_below_half:
  assumes "inv_buf a m" and "bufs m a = Some b" and "len b + l + 1 < 2^63"
  shows "\<exists>nc. grow (cap b) (len b + l + 1) = Some nc \<and> len b + l + 1 < nc"
proof -
  from assms(1,2) have "unat (len b) < unat (cap b)" by (auto elim!: inv_bufE)
  then have "cap b \<noteq> 0" by auto
  from grow_terminates[OF this assms(3)] show ?thesis .
qed

theorem grow_terminates_below_half_witness:
  "inv_buf 0 mem1 \<and> bufs mem1 0 = Some buf1 \<and> len buf1 + 300 + 1 < (2^63 :: size_t) \<and>
   (\<exists>nc. grow (cap buf1) (len buf1 + 300 + 1) = Some nc \<and> len buf1 + 300 + 1 < nc)"
proof -
  have h: "len buf1 + 300 + 1 < (2^63 :: size_t)" by (simp add: buf1_def)
  from grow_terminates_below_half[OF inv_mem1 bufs_mem1 h] inv_mem1 bufs_mem1 h
  show ?thesis by blast
qed

theorem grow_diverges_counterexample:
  "inv_buf 0 mem1 \<and> bufs mem1 0 = Some buf1 \<and> cap buf1 - len buf1 \<le> 2^63 - 1 \<and>
   grow (cap buf1) (len buf1 + (2^63 - 1) + 1) = None \<and>
   sb_buffer_add_lstring (Some 0) (Extern (replicate (2^63 - 1) 65)) (2^63 - 1) mem1 = Diverges"
proof -
  have g: "grow (cap buf1) (len buf1 + (2^63 - 1) + 1) = None"
    using grow_pow2[of "2^63" 8] by (simp add: buf1_def)
  have le: "cap buf1 - len buf1 \<le> 2^63 - 1" by (simp add: buf1_def)
  have mg: "magic buf1 = SB_BUFFER_MAGIC" by (simp add: buf1_def)
  note d = add_diverges[OF bufs_mem1 mg le g, of "Extern (replicate (2^63 - 1) 65)"]
  show ?thesis
    by (intro conjI) (rule inv_mem1 bufs_mem1 le g d)+
qed

text \<open>
  C6. On a fresh buffer, an append from the null pointer with length 1 does not return 0:
  the length fits, so line 75 copies one byte from the null pointer, which is undefined
  behaviour.
\<close>

theorem null_source_faults:
  "inv_buf 0 mem1 \<and> sb_buffer_add_lstring (Some 0) NULL 1 mem1 = Fault"
proof -
  have "sb_buffer_add_lstring (Some 0) NULL 1 mem1 = Fault" by (simp add: eval_defs)
  then show ?thesis using inv_mem1 by simp
qed

text \<open>
  C3. A valid buffer, an append that has to grow, the loop ends, and the allocator refuses
  the request: the call returns 0 and neither the structures nor the heap have changed, so
  content, length, capacity and the active storage are as before.
\<close>

theorem alloc_failure_no_effect:
  assumes "inv_buf a m" and "bufs m a = Some b" and "cap b - len b \<le> l"
    and "grow (cap b) (len b + l + 1) = Some nc" and "allocs m = False # os"
  shows "\<exists>m'. sb_buffer_add_lstring (Some a) s l m = Returns (0, m') \<and>
           bufs m' = bufs m \<and> heap m' = heap m \<and> inv_buf a m' \<and>
           content a m' = content a m \<and> length_of a m' = length_of a m"
proof -
  from assms(1,2) obtain st where mg: "magic b = SB_BUFFER_MAGIC"
    and st: "active (str b) m = Some st"
    and p: "(str b = InitOf a \<and> unat (cap b) = SB_BUFFER_INITIAL_CAP) \<or> (\<exists>k. str b = Block k \<and> k < next_block m)"
    by (auto elim!: inv_bufE)
  have "str b = InitOf a \<or> (\<exists>k. str b = Block k \<and> heap m k = Some st)"
    using p st by (auto simp: active_def)
  then obtain k where "str b = InitOf a \<or> (str b = Block k \<and> heap m k = Some st)" by blast
  from add_alloc_fails[OF assms(2) mg assms(3,4,5) this, of s]
  have "sb_buffer_add_lstring (Some a) s l m = Returns (0, m\<lparr>allocs := os\<rparr>)" .
  then show ?thesis using assms(1) by (simp add: inv_allocs content_allocs length_of_allocs)
qed

theorem alloc_failure_no_effect_witness:
  "inv_buf 0 mem_oom \<and> bufs mem_oom 0 = Some buf1 \<and> cap buf1 - len buf1 \<le> 300 \<and>
   grow (cap buf1) (len buf1 + 300 + 1) = Some 512 \<and> allocs mem_oom = [False] \<and>
   (\<exists>m'. sb_buffer_add_lstring (Some 0) (Extern (replicate 300 65)) 300 mem_oom = Returns (0, m') \<and>
         bufs m' = bufs mem_oom \<and> heap m' = heap mem_oom \<and> inv_buf 0 m' \<and>
         content 0 m' = content 0 mem_oom \<and> length_of 0 m' = length_of 0 mem_oom)"
proof -
  have h1: "inv_buf 0 mem_oom" using inv_mem1 by (simp add: mem_oom_def inv_allocs)
  have h2: "bufs mem_oom 0 = Some buf1" by (simp add: mem_oom_def mem1_def)
  have h3: "cap buf1 - len buf1 \<le> 300" by (simp add: buf1_def word_le_nat_alt)
  have h4: "grow (cap buf1) (len buf1 + 300 + 1) = Some 512" by (simp add: buf1_def grow.simps)
  have h5: "allocs mem_oom = [False]" by (simp add: mem_oom_def)
  from alloc_failure_no_effect[OF h1 h2 h3 h4 h5, of "Extern (replicate 300 65)"] h1 h2 h3 h4 h5
  show ?thesis by blast
qed

text \<open>
  C7. \<open>sb_buffer_reset\<close> and \<open>sb_buffer_finalize\<close> have, on every handle and store, the
  same outcome up to the line number in the diagnostic of an invalid handle; on a valid
  buffer both return 1 and the same store, in which the buffer is inline-backed and empty,
  has the inline capacity and is terminated, and its heap block is released.
\<close>

theorem reset_finalize_same:
  "quiet (sb_buffer_reset p m) = quiet (sb_buffer_finalize p m) \<and>
   (inv_buf a m \<longrightarrow>
     (\<exists>m'. sb_buffer_reset (Some a) m = Returns (1, m') \<and>
           sb_buffer_finalize (Some a) m = Returns (1, m') \<and>
           inline_backed a m' \<and> length_of a m' = Some 0 \<and> content a m' = Some [] \<and>
           terminated a m' \<and>
           (\<forall>b'. bufs m' a = Some b' \<longrightarrow> unat (cap b') = SB_BUFFER_INITIAL_CAP) \<and>
           (\<forall>b k. bufs m a = Some b \<and> str b = Block k \<longrightarrow> heap m' k = None)))"
proof (intro conjI impI)
  show "quiet (sb_buffer_reset p m) = quiet (sb_buffer_finalize p m)"
    by (rule quiet_reset_finalize)
next
  assume inv: "inv_buf a m"
  then obtain b where b: "bufs m a = Some b" and mg: "magic b = SB_BUFFER_MAGIC"
    by (auto elim!: inv_bufE)
  have r: "sb_buffer_reset (Some a) m = Returns (1, reset_state a b m)"
    using inv b by (rule reset_valid)
  have f: "sb_buffer_finalize (Some a) m = Returns (1, reset_state a b m)"
    using finalize_eq_reset[OF deref_valid[OF b mg]] r by simp
  note ps = reset_state_props[OF inv b]
  have t: "terminated a (reset_state a b m)" using ps(1) by (simp add: inv_buf_def)
  have c: "\<forall>b'. bufs (reset_state a b m) a = Some b' \<longrightarrow> unat (cap b') = SB_BUFFER_INITIAL_CAP"
    using ps(5) by (auto simp: SB_BUFFER_INITIAL_CAP_def)
  have h: "\<forall>b' k. bufs m a = Some b' \<and> str b' = Block k \<longrightarrow> heap (reset_state a b m) k = None"
    using ps(8) b by auto
  show "\<exists>m'. sb_buffer_reset (Some a) m = Returns (1, m') \<and>
           sb_buffer_finalize (Some a) m = Returns (1, m') \<and>
           inline_backed a m' \<and> length_of a m' = Some 0 \<and> content a m' = Some [] \<and>
           terminated a m' \<and>
           (\<forall>b'. bufs m' a = Some b' \<longrightarrow> unat (cap b') = SB_BUFFER_INITIAL_CAP) \<and>
           (\<forall>b k. bufs m a = Some b \<and> str b = Block k \<longrightarrow> heap m' k = None)"
    using r f ps(4) ps(3) ps(2) t c h by blast
qed

theorem reset_finalize_same_witness:
  "inv_buf 0 mem300 \<and> heap_backed 0 mem300 \<and>
   quiet (sb_buffer_reset (Some 0) mem300) = quiet (sb_buffer_finalize (Some 0) mem300) \<and>
   (\<exists>m'. sb_buffer_reset (Some 0) mem300 = Returns (1, m') \<and>
         sb_buffer_finalize (Some 0) mem300 = Returns (1, m') \<and>
         inline_backed 0 m' \<and> length_of 0 m' = Some 0 \<and> content 0 m' = Some [] \<and>
         terminated 0 m' \<and> heap m' 0 = None)"
proof -
  have hb: "heap_backed 0 mem300" by (simp add: heap_backed_def mem300_def buf300_def)
  have b: "bufs mem300 0 = Some buf300 \<and> str buf300 = Block 0"
    by (simp add: mem300_def buf300_def)
  from reset_finalize_same[of "Some 0" mem300 0] inv_mem300 hb b
  show ?thesis by blast
qed


text \<open>
  C10. Copying a valid buffer onto itself returns 1 and leaves it empty and inline-backed:
  \<open>src->str\<close> and \<open>src->len\<close> are read after the reset of the destination.
\<close>

theorem copy_self_erases:
  assumes "inv_buf a m"
  shows "\<exists>m'. sb_buffer_copy (Some a) (Some a) m = Returns (1, m') \<and>
           length_of a m' = Some 0 \<and> content a m' = Some [] \<and>
           inline_backed a m' \<and> inv_buf a m'"
  using assms by (rule copy_self)

theorem copy_self_erases_witness:
  "inv_buf 0 mem300 \<and> content 0 mem300 = Some (replicate 300 65) \<and> heap_backed 0 mem300 \<and>
   (\<exists>m'. sb_buffer_copy (Some 0) (Some 0) mem300 = Returns (1, m') \<and>
         length_of 0 m' = Some 0 \<and> content 0 m' = Some [] \<and>
         inline_backed 0 m' \<and> inv_buf 0 m')"
proof -
  have c: "content 0 mem300 = Some (replicate 300 65)"
    by (simp add: content_def sb_buffer_get_str_def sb_buffer_get_len_def deref_buffer_def
        load_def active_def mem300_def buf300_def)
  have hb: "heap_backed 0 mem300" by (simp add: heap_backed_def mem300_def buf300_def)
  from copy_self_erases[OF inv_mem300] inv_mem300 c hb show ?thesis by blast
qed

text \<open>
  C9. \<open>sb_buffer_clear\<close> on a valid buffer returns 1, sets \<open>len\<close> to 0 and terminates
  at offset 0; \<open>cap\<close>, \<open>str\<close>, the set of heap blocks and the allocator are unchanged.
  An append of fewer than \<open>cap\<close> bytes afterwards succeeds without a call of the
  allocator, in the same storage.
\<close>

theorem clear_keeps_storage:
  assumes "inv_buf a m" and "bufs m a = Some b"
  shows "\<exists>m' b'. sb_buffer_clear (Some a) m = Returns (1, m') \<and> bufs m' a = Some b' \<and>
           len b' = 0 \<and> cap b' = cap b \<and> str b' = str b \<and>
           terminated a m' \<and> length_of a m' = Some 0 \<and>
           (\<forall>k. (heap m' k = None) = (heap m k = None)) \<and>
           next_block m' = next_block m \<and> allocs m' = allocs m \<and>
           (\<forall>bs. length bs < unat (cap b) \<longrightarrow>
              (\<exists>m'' b''. sb_buffer_add_lstring (Some a) (Extern bs) (of_nat (length bs)) m'
                            = Returns (1, m'') \<and>
                 bufs m'' a = Some b'' \<and> str b'' = str b \<and> cap b'' = cap b \<and>
                 next_block m'' = next_block m' \<and> allocs m'' = allocs m' \<and>
                 content a m'' = Some bs))"
proof -
  from assms obtain st where st: "active (str b) m = Some st" by (auto elim!: inv_bufE)
  let ?b' = "b\<lparr>len := 0, init := (if str b = InitOf a then st[0 := 0] else init b)\<rparr>"
  from clear_valid[OF assms st] obtain m' where
    r: "sb_buffer_clear (Some a) m = Returns (1, m')" and b': "bufs m' a = Some ?b'"
    and act: "active (str b) m' = Some (st[0 := 0])"
    and fr: "\<forall>k'. Block k' \<noteq> str b \<longrightarrow> heap m' k' = heap m k'"
    and nb: "next_block m' = next_block m" and al: "allocs m' = allocs m"
    and inv': "inv_buf a m'"
    by blast
  have act': "active (str ?b') m' = Some (st[0 := 0])" using act by simp
  have t: "terminated a m'" using inv' by (simp add: inv_buf_def)
  have lo: "length_of a m' = Some 0" using content_valid(2)[OF inv' b' act'] by simp
  have c0: "content a m' = Some []" using content_valid(1)[OF inv' b' act'] by simp
  have dom: "(heap m' k = None) = (heap m k = None)" for k
  proof (cases "Block k = str b")
    case True
    then have "str b = Block k" by simp
    then show ?thesis using act st by (simp add: active_def)
  next
    case False
    then show ?thesis using fr by simp
  qed
  have app: "\<exists>m'' b''. sb_buffer_add_lstring (Some a) (Extern bs) (of_nat (length bs)) m'
                            = Returns (1, m'') \<and>
                 bufs m'' a = Some b'' \<and> str b'' = str b \<and> cap b'' = cap b \<and>
                 next_block m'' = next_block m' \<and> allocs m'' = allocs m' \<and>
                 content a m'' = Some bs" if len: "length bs < unat (cap b)" for bs
  proof -
    have l64: "length bs < 2^64" using len unsigned_less[of "cap b", where ?'a = nat] by simp
    have un: "unat (of_nat (length bs) :: size_t) = length bs" using l64 by (rule unat_of_nat_len)
    have fit: "unat (len ?b') + unat (of_nat (length bs) :: size_t) < unat (cap ?b')"
      using len un by simp
    have ld: "load (Extern bs) (unat (of_nat (length bs) :: size_t)) m' = Some bs"
      using un by (simp add: load_Extern)
    have nov: "\<not> (0 < unat (of_nat (length bs) :: size_t) \<and> Extern bs = str ?b' \<and>
                 unat (len ?b') < unat (of_nat (length bs) :: size_t))"
      using inv' b' by (auto elim!: inv_bufE)
    from add_fits_succeeds[OF inv' b' fit ld nov] obtain m'' where
      r2: "sb_buffer_add_lstring (Some a) (Extern bs) (of_nat (length bs)) m' = Returns (1, m'')"
      by blast
    have nf: "\<not> cap ?b' - len ?b' \<le> of_nat (length bs)"
      using fit fits_iff[of ?b' "of_nat (length bs)"] by simp
    have c: "content a m'' = Some bs" using append_step[OF inv' c0 l64 r2] by simp
    show ?thesis
    proof (rule add_lstring_ok[OF inv' b' act' r2], simp, goal_cases)
      case (1 vs b'' st'')
      have "str b'' = str b \<and> cap b'' = cap b \<and> next_block m'' = next_block m' \<and> allocs m'' = allocs m'"
        using 1(12) nf by auto
      then show ?case using r2 1(4) c by simp
    qed
  qed
  show ?thesis using r b' t lo dom nb al app by (intro exI[of _ m'] exI[of _ ?b']) simp
qed

theorem clear_keeps_storage_witness:
  "inv_buf 0 mem300 \<and> bufs mem300 0 = Some buf300 \<and> heap_backed 0 mem300 \<and>
   length hi < unat (cap buf300) \<and>
   (\<exists>m' b'. sb_buffer_clear (Some 0) mem300 = Returns (1, m') \<and> bufs m' 0 = Some b' \<and>
      len b' = 0 \<and> cap b' = 512 \<and> str b' = Block 0 \<and> terminated 0 m' \<and>
      length_of 0 m' = Some 0 \<and> next_block m' = next_block mem300 \<and>
      allocs m' = allocs mem300 \<and>
      (\<exists>m'' b''. sb_buffer_add_lstring (Some 0) (Extern hi) (of_nat (length hi)) m'
                    = Returns (1, m'') \<and>
         bufs m'' 0 = Some b'' \<and> str b'' = Block 0 \<and> cap b'' = 512 \<and>
         next_block m'' = next_block m' \<and> allocs m'' = allocs m' \<and>
         content 0 m'' = Some hi))"
proof -
  have b: "bufs mem300 0 = Some buf300" by (simp add: mem300_def)
  have hb: "heap_backed 0 mem300" by (simp add: heap_backed_def mem300_def buf300_def)
  have l: "length hi < unat (cap buf300)" by (simp add: hi_def buf300_def)
  have f: "cap buf300 = 512" "str buf300 = Block 0" by (simp_all add: buf300_def)
  from clear_keeps_storage[OF inv_mem300 b] obtain m' b' where
    1: "sb_buffer_clear (Some 0) mem300 = Returns (1, m')" "bufs m' 0 = Some b'"
      "len b' = 0" "cap b' = cap buf300" "str b' = str buf300"
      "terminated 0 m'" "length_of 0 m' = Some 0" "next_block m' = next_block mem300"
      "allocs m' = allocs mem300"
    and 2: "\<forall>bs. length bs < unat (cap buf300) \<longrightarrow>
              (\<exists>m'' b''. sb_buffer_add_lstring (Some 0) (Extern bs) (of_nat (length bs)) m'
                            = Returns (1, m'') \<and>
                 bufs m'' 0 = Some b'' \<and> str b'' = str buf300 \<and> cap b'' = cap buf300 \<and>
                 next_block m'' = next_block m' \<and> allocs m'' = allocs m' \<and>
                 content 0 m'' = Some bs)"
    by blast
  from 2 l obtain m'' b'' where 3:
    "sb_buffer_add_lstring (Some 0) (Extern hi) (of_nat (length hi)) m' = Returns (1, m'')"
    "bufs m'' 0 = Some b''" "str b'' = str buf300" "cap b'' = cap buf300"
    "next_block m'' = next_block m'" "allocs m'' = allocs m'" "content 0 m'' = Some hi"
    by blast
  have 4: "cap b' = 512" "str b' = Block 0" "str b'' = Block 0" "cap b'' = 512"
    using 1(4,5) 3(3,4) f by simp_all
  have "\<exists>m'' b''. sb_buffer_add_lstring (Some 0) (Extern hi) (of_nat (length hi)) m'
                    = Returns (1, m'') \<and>
         bufs m'' 0 = Some b'' \<and> str b'' = Block 0 \<and> cap b'' = 512 \<and>
         next_block m'' = next_block m' \<and> allocs m'' = allocs m' \<and>
         content 0 m'' = Some hi"
    using 3(1,2,5,6,7) 4(3,4) by blast
  then have "\<exists>m' b'. sb_buffer_clear (Some 0) mem300 = Returns (1, m') \<and> bufs m' 0 = Some b' \<and>
      len b' = 0 \<and> cap b' = 512 \<and> str b' = Block 0 \<and> terminated 0 m' \<and>
      length_of 0 m' = Some 0 \<and> next_block m' = next_block mem300 \<and>
      allocs m' = allocs mem300 \<and>
      (\<exists>m'' b''. sb_buffer_add_lstring (Some 0) (Extern hi) (of_nat (length hi)) m'
                    = Returns (1, m'') \<and>
         bufs m'' 0 = Some b'' \<and> str b'' = Block 0 \<and> cap b'' = 512 \<and>
         next_block m'' = next_block m' \<and> allocs m'' = allocs m' \<and>
         content 0 m'' = Some hi)"
    using 1(1,2,3,6,7,8,9) 4(1,2) by blast
  then show ?thesis using inv_mem300 b hb l by blast
qed

text \<open>
  C8. Two valid buffers that share no storage, and a copy from the first to the second that
  returns 1: the destination has the content and the length of the source, the source is
  unchanged, both are still valid and share no storage, and no later append to either one,
  whatever it is given and whatever it returns, changes the content of the other.
\<close>

theorem copy_independent:
  assumes "inv_buf s m" and "inv_buf d m" and "separate s d m"
    and "sb_buffer_copy (Some s) (Some d) m = Returns (1, m')"
  shows "content d m' = content s m' \<and> length_of d m' = length_of s m' \<and>
         content s m' = content s m \<and> inv_buf s m' \<and> inv_buf d m' \<and> separate s d m' \<and>
         (\<forall>p l r2 m2. sb_buffer_add_lstring (Some s) p l m' = Returns (r2, m2) \<longrightarrow>
            content d m2 = content d m') \<and>
         (\<forall>p l r2 m2. sb_buffer_add_lstring (Some d) p l m' = Returns (r2, m2) \<longrightarrow>
            content s m2 = content s m')"
proof -
  from assms(3) obtain sb db where bs: "bufs m s = Some sb" and bd: "bufs m d = Some db"
    and ne: "s \<noteq> d" and ns: "str sb \<noteq> str db"
    by (auto simp: separate_def split: option.splits)
  have r0: "(1::int) \<noteq> 0" by simp
  from copy_separate[OF assms(1) bs assms(2) bd ne ns assms(4) r0]
  obtain b' where f: "content d m' = content s m" "length_of d m' = length_of s m"
    "inv_buf d m'" "inv_buf s m'" "bufs m' s = Some sb" "content s m' = content s m"
    "length_of s m' = length_of s m" "bufs m' d = Some b'" "str b' \<noteq> str sb"
    by blast
  have sep: "separate s d m'" using f(5,8,9) ne by (auto simp: separate_def)
  have sep': "separate d s m'" using sep separate_sym by simp
  have i1: "content d m2 = content d m'"
    if "sb_buffer_add_lstring (Some s) p l m' = Returns (r2, m2)" for p l r2 m2
    using add_lstring_indep[OF f(4) f(3) sep that] by simp
  have i2: "content s m2 = content s m'"
    if "sb_buffer_add_lstring (Some d) p l m' = Returns (r2, m2)" for p l r2 m2
    using add_lstring_indep[OF f(3) f(4) sep' that] by simp
  show ?thesis using f sep i1 i2 by (intro conjI allI impI) auto
qed


theorem copy_independent_witness:
  "inv_buf 0 memAB \<and> inv_buf 1 memAB \<and> separate 0 1 memAB \<and>
   sb_buffer_copy (Some 0) (Some 1) memAB = Returns (1, memAB2) \<and>
   content 0 memAB2 = Some (replicate 300 65) \<and> content 1 memAB2 = Some (replicate 300 65) \<and>
   length_of 1 memAB2 = length_of 0 memAB2 \<and>
   (\<exists>m2. sb_buffer_add_lstring (Some 0) (Extern hi) 2 memAB2 = Returns (1, m2) \<and>
         content 0 m2 = Some (replicate 300 65 @ hi) \<and> content 1 m2 = Some (replicate 300 65)) \<and>
   (\<exists>m3. sb_buffer_add_lstring (Some 1) (Extern hi) 2 memAB2 = Returns (1, m3) \<and>
         content 1 m3 = Some (replicate 300 65 @ hi) \<and> content 0 m3 = Some (replicate 300 65))"
proof -
  have i0: "inv_buf 0 memAB" and i1: "inv_buf 1 memAB" and sp: "separate 0 1 memAB"
    using inv_memAB by auto
  note ci = copy_independent[OF i0 i1 sp copyAB]
  have c0: "content 0 memAB2 = Some (replicate 300 65)" using ci content_memAB by simp
  have c1: "content 1 memAB2 = Some (replicate 300 65)" using ci c0 by simp
  have l2: "length hi < 2^64" "(of_nat (length hi) :: size_t) = 2" by (simp_all add: hi_def)
  obtain m2 where a2: "sb_buffer_add_lstring (Some 0) (Extern hi) 2 memAB2 = Returns (1, m2)"
    by (simp add: eval_defs memAB2_def buf300_def bufB2_def hi_def)
  obtain m3 where a3: "sb_buffer_add_lstring (Some 1) (Extern hi) 2 memAB2 = Returns (1, m3)"
    by (simp add: eval_defs memAB2_def buf300_def bufB2_def hi_def)
  have i0': "inv_buf 0 memAB2" and i1': "inv_buf 1 memAB2" using ci by auto
  have s2: "content 0 m2 = Some (replicate 300 65 @ hi)"
    using append_step[OF i0' c0 l2(1), of 1 m2] a2 l2(2) by simp
  have s3: "content 1 m3 = Some (replicate 300 65 @ hi)"
    using append_step[OF i1' c1 l2(1), of 1 m3] a3 l2(2) by simp
  have d2: "content 1 m2 = Some (replicate 300 65)" using ci a2 c1 by metis
  have d3: "content 0 m3 = Some (replicate 300 65)" using ci a3 c0 by metis
  have le: "length_of 1 memAB2 = length_of 0 memAB2" using ci by simp
  show ?thesis using i0 i1 sp copyAB c0 c1 le a2 s2 d2 a3 s3 d3 by blast
qed






text \<open>
  C4, amended. The threshold is the inline capacity, not the inline capacity minus one.
  An append to a valid inline-backed buffer that brings the length to at most 255 succeeds
  without a call of the allocator and leaves the buffer inline-backed. One that brings it
  to 256 or more and returns 1 has made one allocation request, the buffer points at the
  new block, the earlier blocks are untouched and the content is the earlier content
  followed by the new bytes; it does return 1 when the allocator does not refuse and the
  total stays below \<open>2^63\<close>. A heap-backed buffer stays heap-backed.
  The counterexample: 255 bytes appended to a fresh buffer leave it inline-backed.
\<close>

theorem inline_until_capacity:
  assumes "inv_buf a m" and "bufs m a = Some b" and "content a m = Some c"
    and "length bs < 2^64"
  shows
   "(str b = InitOf a \<and> unat (len b) + length bs < SB_BUFFER_INITIAL_CAP \<longrightarrow>
       (\<exists>m'. sb_buffer_add_lstring (Some a) (Extern bs) (of_nat (length bs)) m = Returns (1, m') \<and>
          inline_backed a m' \<and> heap m' = heap m \<and> next_block m' = next_block m \<and>
          allocs m' = allocs m \<and> content a m' = Some (c @ bs))) \<and>
    (str b = InitOf a \<and> SB_BUFFER_INITIAL_CAP \<le> unat (len b) + length bs \<longrightarrow>
       (\<forall>m'. sb_buffer_add_lstring (Some a) (Extern bs) (of_nat (length bs)) m = Returns (1, m') \<longrightarrow>
          heap_backed a m' \<and> (\<exists>b'. bufs m' a = Some b' \<and> str b' = Block (next_block m)) \<and>
          next_block m' = Suc (next_block m) \<and> allocs m' = tl (allocs m) \<and>
          (\<forall>k<next_block m. heap m' k = heap m k) \<and> content a m' = Some (c @ bs)) \<and>
       (unat (len b) + length bs + 1 < 2^63 \<and> (\<forall>os. allocs m \<noteq> False # os) \<longrightarrow>
          (\<exists>m'. sb_buffer_add_lstring (Some a) (Extern bs) (of_nat (length bs)) m
                  = Returns (1, m')))) \<and>
    (heap_backed a m \<longrightarrow>
       (\<forall>m'. sb_buffer_add_lstring (Some a) (Extern bs) (of_nat (length bs)) m = Returns (1, m') \<longrightarrow>
          heap_backed a m' \<and> content a m' = Some (c @ bs)))"
proof -
  let ?l = "of_nat (length bs) :: size_t"
  from assms(1,2) obtain st where mg: "magic b = SB_BUFFER_MAGIC"
    and st: "active (str b) m = Some st" and lc: "unat (len b) < unat (cap b)"
    and p: "(str b = InitOf a \<and> unat (cap b) = SB_BUFFER_INITIAL_CAP) \<or> (\<exists>k. str b = Block k \<and> k < next_block m)"
    by (auto elim!: inv_bufE)
  have wf: "well_formed a m" using assms(1) by (simp add: inv_buf_def)
  have un: "unat ?l = length bs" using assms(4) by (rule unat_of_nat_len)
  have r0: "(1::int) \<noteq> 0" by simp
  have cont: "content a m' = Some (c @ bs)"
    if "sb_buffer_add_lstring (Some a) (Extern bs) ?l m = Returns (1, m')" for m'
    using append_step[OF assms(1,3,4) that] by simp
  have 1: "\<exists>m'. sb_buffer_add_lstring (Some a) (Extern bs) ?l m = Returns (1, m') \<and>
          inline_backed a m' \<and> heap m' = heap m \<and> next_block m' = next_block m \<and>
          allocs m' = allocs m \<and> content a m' = Some (c @ bs)"
    if i: "str b = InitOf a" and small: "unat (len b) + length bs < SB_BUFFER_INITIAL_CAP"
  proof -
    have cap: "unat (cap b) = SB_BUFFER_INITIAL_CAP" using p i by auto
    have fit: "unat (len b) + unat ?l < unat (cap b)" using small cap un by simp
    have nf: "\<not> cap b - len b \<le> ?l" using fit fits_iff[OF lc] by simp
    have ld: "load (Extern bs) (unat ?l) m = Some bs" using un by (simp add: load_Extern)
    have nov: "\<not> (0 < unat ?l \<and> Extern bs = str b \<and> unat (len b) < unat ?l)" using i by simp
    from add_fits_succeeds[OF assms(1,2) fit ld nov] obtain m' where
      r: "sb_buffer_add_lstring (Some a) (Extern bs) ?l m = Returns (1, m')" by blast
    then have ab: "append_bytes a (Extern bs) ?l m = Returns (1, m')"
      using add_fits[OF assms(2) mg nf, of "Extern bs"] by simp
    have "inline_backed a m' \<and> heap m' = heap m \<and> next_block m' = next_block m \<and> allocs m' = allocs m"
    proof (rule append_bytes_wf[OF wf assms(2) st ab], goal_cases)
      case (1 vs b' st')
      have "heap m' = heap m" using 1(13) i by (intro ext) simp
      moreover have "inline_backed a m'" using 1(3) 1(4) i by (simp add: inline_backed_def)
      ultimately show ?case using 1(14) 1(15) by simp
    qed
    then show ?thesis using r cont[OF r] by blast
  qed
  have 2: "heap_backed a m' \<and> (\<exists>b'. bufs m' a = Some b' \<and> str b' = Block (next_block m)) \<and>
          next_block m' = Suc (next_block m) \<and> allocs m' = tl (allocs m) \<and>
          (\<forall>k<next_block m. heap m' k = heap m k) \<and> content a m' = Some (c @ bs)"
    if i: "str b = InitOf a" and big: "SB_BUFFER_INITIAL_CAP \<le> unat (len b) + length bs"
      and r: "sb_buffer_add_lstring (Some a) (Extern bs) ?l m = Returns (1, m')" for m'
  proof -
    have cap: "unat (cap b) = SB_BUFFER_INITIAL_CAP" using p i by auto
    have gr: "cap b - len b \<le> ?l" using fits_iff[OF lc, of ?l] big cap un by auto
    show ?thesis
    proof (rule add_lstring_ok[OF assms(1,2) st r r0], goal_cases)
      case (1 vs b' st')
      have s': "str b' = Block (next_block m)" "next_block m' = Suc (next_block m)"
        "allocs m' = tl (allocs m)" using 1(12) gr by auto
      have hb: "heap_backed a m'" using heap_backedI[OF 1(4) s'(1) 1(7)] .
      have fr: "\<forall>k<next_block m. heap m' k = heap m k" using 1(11) i by simp
      show ?case using hb 1(4) s' fr cont[OF r] by simp
    qed
  qed
  have 3: "heap_backed a m' \<and> content a m' = Some (c @ bs)"
    if h: "heap_backed a m"
      and r: "sb_buffer_add_lstring (Some a) (Extern bs) ?l m = Returns (1, m')" for m'
  proof -
    from h assms(2) obtain k where k: "str b = Block k"
      by (auto simp: heap_backed_def split: ptr.splits)
    show ?thesis
    proof (rule add_lstring_ok[OF assms(1,2) st r r0], goal_cases)
      case (1 vs b' st')
      have "\<exists>k'. str b' = Block k'" using 1(12) k by auto
      then obtain k' where "str b' = Block k'" by blast
      from heap_backedI[OF 1(4) this 1(7)] show ?case using cont[OF r] by simp
    qed
  qed
  have 4: "\<exists>m'. sb_buffer_add_lstring (Some a) (Extern bs) ?l m = Returns (1, m')"
    if "unat (len b) + length bs + 1 < 2^63" "\<forall>os. allocs m \<noteq> False # os"
    using add_succeeds[OF assms(1,2) that] .
  show ?thesis using 1 2 3 4 by blast
qed


theorem inline_until_capacity_witness:
  "inv_buf 0 mem1 \<and> bufs mem1 0 = Some buf1 \<and> str buf1 = InitOf 0 \<and>
   content 0 mem1 = Some [] \<and>
   unat (len buf1) + length (replicate 255 (65::byte)) < SB_BUFFER_INITIAL_CAP \<and>
   (\<exists>m'. sb_buffer_add_lstring (Some 0) (Extern (replicate 255 65)) 255 mem1 = Returns (1, m') \<and>
      inline_backed 0 m' \<and> heap m' = heap mem1 \<and> next_block m' = next_block mem1 \<and>
      allocs m' = allocs mem1 \<and> content 0 m' = Some (replicate 255 65)) \<and>
   SB_BUFFER_INITIAL_CAP \<le> unat (len buf1) + length (replicate 300 (65::byte)) \<and>
   sb_buffer_add_lstring (Some 0) (Extern (replicate 300 65)) 300 mem1 = Returns (1, mem300) \<and>
   heap_backed 0 mem300 \<and> next_block mem300 = Suc (next_block mem1) \<and>
   allocs mem300 = tl (allocs mem1) \<and> content 0 mem300 = Some (replicate 300 65) \<and>
   (\<exists>m3. sb_buffer_add_lstring (Some 0) (Extern hi) 2 mem300 = Returns (1, m3) \<and>
      heap_backed 0 m3 \<and> content 0 m3 = Some (replicate 300 65 @ hi))"
proof -
  have b1: "bufs mem1 0 = Some buf1" "str buf1 = InitOf 0" by (simp_all add: mem1_def buf1_def)
  have s255: "unat (len buf1) + length (replicate 255 (65::byte)) < SB_BUFFER_INITIAL_CAP"
    by (simp add: buf1_def SB_BUFFER_INITIAL_CAP_def)
  have s300: "SB_BUFFER_INITIAL_CAP \<le> unat (len buf1) + length (replicate 300 (65::byte))"
    by (simp add: buf1_def SB_BUFFER_INITIAL_CAP_def)
  have n255: "length (replicate 255 (65::byte)) < 2^64" and n300: "length (replicate 300 (65::byte)) < 2^64"
    and nhi: "length hi < 2^64" by (simp_all add: hi_def)
  have e255: "(of_nat (length (replicate 255 (65::byte))) :: size_t) = 255"
    and e300: "(of_nat (length (replicate 300 (65::byte))) :: size_t) = 300"
    and ehi: "(of_nat (length hi) :: size_t) = 2" by (simp_all add: hi_def)
  have 1: "\<exists>m'. sb_buffer_add_lstring (Some 0) (Extern (replicate 255 65)) 255 mem1 = Returns (1, m') \<and>
      inline_backed 0 m' \<and> heap m' = heap mem1 \<and> next_block m' = next_block mem1 \<and>
      allocs m' = allocs mem1 \<and> content 0 m' = Some (replicate 255 65)"
    using inline_until_capacity[OF inv_mem1 b1(1) content_mem1 n255] b1(2) s255 e255 by simp
  have 2: "heap_backed 0 mem300 \<and> next_block mem300 = Suc (next_block mem1) \<and>
      allocs mem300 = tl (allocs mem1) \<and> content 0 mem300 = Some (replicate 300 65)"
    using inline_until_capacity[OF inv_mem1 b1(1) content_mem1 n300] b1(2) s300 e300 add300 by simp
  have b3: "bufs mem300 0 = Some buf300" by (simp add: mem300_def)
  obtain m3 where a3: "sb_buffer_add_lstring (Some 0) (Extern hi) 2 mem300 = Returns (1, m3)"
    by (simp add: eval_defs mem300_def buf300_def hi_def)
  have 3: "heap_backed 0 m3 \<and> content 0 m3 = Some (replicate 300 65 @ hi)"
    using inline_until_capacity[OF inv_mem300 b3 content_mem300 nhi] 2 ehi a3 by simp
  show ?thesis using inv_mem1 b1 content_mem1 s255 1 s300 add300 2 a3 3 by blast
qed

theorem append_to_255_stays_inline_counterexample:
  "inv_buf 0 mem1 \<and> inline_backed 0 mem1 \<and> length_of 0 mem1 = Some 0 \<and>
   sb_buffer_add_lstring (Some 0) (Extern (replicate 255 65)) 255 mem1 = Returns (1, mem255) \<and>
   length_of 0 mem255 = Some (SB_BUFFER_INITIAL_CAP - 1) \<and> inline_backed 0 mem255 \<and>
   \<not> heap_backed 0 mem255 \<and> heap mem255 = heap mem1 \<and> allocs mem255 = allocs mem1 \<and>
   next_block mem255 = next_block mem1"
proof -
  have "inline_backed 0 mem1" "length_of 0 mem1 = Some 0"
    by (simp_all add: inline_backed_def length_of_def sb_buffer_get_len_def deref_buffer_def
        mem1_def buf1_def SB_BUFFER_MAGIC_def)
  moreover have "length_of 0 mem255 = Some (SB_BUFFER_INITIAL_CAP - 1)" "inline_backed 0 mem255"
    "\<not> heap_backed 0 mem255" "heap mem255 = heap mem1" "allocs mem255 = allocs mem1"
    "next_block mem255 = next_block mem1"
    by (simp_all add: inline_backed_def heap_backed_def length_of_def sb_buffer_get_len_def
        deref_buffer_def mem255_def buf255_def mem1_def SB_BUFFER_MAGIC_def
        SB_BUFFER_INITIAL_CAP_def)
  ultimately show ?thesis using inv_mem1 add255 by simp
qed


end
